theory Spec2Isabelle
  imports Main "HOL-Library.Word"
begin

unbundle bit_operations_syntax

section \<open>Microchip CoreSPI controller driver (spi-microchip-core.c)\<close>

text \<open>
  A shallow embedding of the transfer path of the driver: register access, the FIFO
  drain and fill loops, the clock divider computation, chip select, the start of a
  transfer and the interrupt handler.

  C types: \<open>u8\<close>, \<open>u16\<close>, \<open>u32\<close> are words of that width and \<open>unsigned long\<close> is a
  64-bit word (the controller sits in a 64-bit RISC-V SoC). The three \<open>int\<close> counters
  of the driver are modelled as \<open>int\<close>: they are set from a transfer length and only
  ever move by a loop count between 0 and 32 that is bounded by the counter itself,
  so no 32-bit overflow can occur on them.
\<close>

type_synonym u8 = "8 word"
type_synonym u16 = "16 word"
type_synonym u32 = "32 word"
type_synonym ulong = "64 word"

subsection \<open>Constants of the driver\<close>

definition BIT :: "nat \<Rightarrow> u32" where
  "BIT n = push_bit n 1"

definition GENMASK :: "nat \<Rightarrow> nat \<Rightarrow> u32" where
  "GENMASK h l = push_bit l (mask (Suc h - l))"

definition MAX_CS :: nat where "MAX_CS = 8"
definition FIFO_DEPTH :: int where "FIFO_DEPTH = 32"
definition CLK_GEN_MODE1_MAX :: ulong where "CLK_GEN_MODE1_MAX = 255"
definition CLK_GEN_MODE0_MAX :: ulong where "CLK_GEN_MODE0_MAX = 15"
definition CLK_GEN_MIN :: ulong where "CLK_GEN_MIN = 0"

definition CONTROL_ENABLE :: u32 where "CONTROL_ENABLE = BIT 0"
definition CONTROL_RX_DATA_INT :: u32 where "CONTROL_RX_DATA_INT = BIT 4"
definition CONTROL_TX_DATA_INT :: u32 where "CONTROL_TX_DATA_INT = BIT 5"
definition CONTROL_RX_OVER_INT :: u32 where "CONTROL_RX_OVER_INT = BIT 6"
definition CONTROL_TX_UNDER_INT :: u32 where "CONTROL_TX_UNDER_INT = BIT 7"
definition CONTROL_CLKMODE :: u32 where "CONTROL_CLKMODE = BIT 28"
definition CONTROL_FRAMECNT_MASK :: u32 where "CONTROL_FRAMECNT_MASK = GENMASK 23 8"
definition CONTROL_FRAMECNT_SHIFT :: nat where "CONTROL_FRAMECNT_SHIFT = 8"

definition STATUS_TXFIFO_FULL :: u32 where "STATUS_TXFIFO_FULL = BIT 8"
definition STATUS_RXFIFO_EMPTY :: u32 where "STATUS_RXFIFO_EMPTY = BIT 6"

definition INT_TXDONE :: u32 where "INT_TXDONE = BIT 0"
definition INT_RXRDY :: u32 where "INT_RXRDY = BIT 1"
definition INT_RX_CHANNEL_OVERFLOW :: u32 where "INT_RX_CHANNEL_OVERFLOW = BIT 2"
definition INT_TX_CHANNEL_UNDERRUN :: u32 where "INT_TX_CHANNEL_UNDERRUN = BIT 3"

definition REG_CONTROL :: nat where "REG_CONTROL = 0x00"
definition REG_FRAME_SIZE :: nat where "REG_FRAME_SIZE = 0x04"
definition REG_STATUS :: nat where "REG_STATUS = 0x08"
definition REG_INT_CLEAR :: nat where "REG_INT_CLEAR = 0x0c"
definition REG_RX_DATA :: nat where "REG_RX_DATA = 0x10"
definition REG_TX_DATA :: nat where "REG_TX_DATA = 0x14"
definition REG_CLK_GEN :: nat where "REG_CLK_GEN = 0x18"
definition REG_SLAVE_SELECT :: nat where "REG_SLAVE_SELECT = 0x1c"
definition SSEL_MASK :: u32 where "SSEL_MASK = GENMASK 7 0"
definition SSEL_DIRECT :: u32 where "SSEL_DIRECT = BIT 8"
definition SSELOUT :: u32 where "SSELOUT = BIT 9"
definition REG_MIS :: nat where "REG_MIS = 0x20"
definition REG_FRAMESUP :: nat where "REG_FRAMESUP = 0x50"

lemmas bit_consts =
  BIT_def GENMASK_def CONTROL_ENABLE_def CONTROL_RX_DATA_INT_def CONTROL_TX_DATA_INT_def
  CONTROL_RX_OVER_INT_def CONTROL_TX_UNDER_INT_def CONTROL_CLKMODE_def
  CONTROL_FRAMECNT_MASK_def CONTROL_FRAMECNT_SHIFT_def STATUS_TXFIFO_FULL_def
  STATUS_RXFIFO_EMPTY_def INT_TXDONE_def INT_RXRDY_def INT_RX_CHANNEL_OVERFLOW_def
  INT_TX_CHANNEL_UNDERRUN_def SSEL_MASK_def SSEL_DIRECT_def SSELOUT_def

lemmas reg_consts =
  REG_CONTROL_def REG_FRAME_SIZE_def REG_STATUS_def REG_INT_CLEAR_def REG_RX_DATA_def
  REG_TX_DATA_def REG_CLK_GEN_def REG_SLAVE_SELECT_def REG_MIS_def REG_FRAMESUP_def

subsection \<open>The driver state and its environment\<close>

text \<open>
  What the driver does to the outside is recorded as a list of events, oldest first:
  every \<open>readl\<close> and \<open>writel\<close> on the register block with the register offset and the
  value, every \<open>dev_err\<close> message, and every call of
  \<open>spi_finalize_current_transfer\<close>.
\<close>

datatype message =
    RX_OVERFLOW int int
  | TX_UNDERFLOW int int
  | CLK_GEN_FAILED u32

datatype event =
    Readl nat u32
  | Writel nat u32
  | Dev_err message
  | Finalize

text \<open>
  The register block is hardware, not code. Its state has an arbitrary type \<open>'h\<close> and
  the two access primitives are parameters of every driver function: \<open>readl\<close> returns
  the value read and the state after the read (a read of RX_DATA removes a FIFO
  entry), \<open>writel\<close> returns the state after the write.
\<close>

record 'h iomem =
  readl :: "'h \<Rightarrow> nat \<Rightarrow> u32 \<times> 'h"
  writel :: "u32 \<Rightarrow> 'h \<Rightarrow> nat \<Rightarrow> 'h"

text \<open>
  \<open>struct mchp_corespi\<close>. \<open>regs\<close> holds the state of the register block the pointer
  refers to, \<open>clk\<close> the rate \<open>clk_get_rate\<close> returns for the clock. A buffer pointer is
  \<open>None\<close> when it is NULL and \<open>Some a\<close> for the address \<open>a\<close> of the next byte. The
  record is extended by the memory the buffers live in and by the event list.
\<close>

record 'h mchp_corespi =
  regs :: 'h
  clk :: ulong
  tx_buf :: "nat option"
  rx_buf :: "nat option"
  clk_gen :: u32
  clk_mode :: u32
  irq :: int
  tx_len :: int
  rx_len :: int
  pending :: int
  ram :: "nat \<Rightarrow> u8"
  trace :: "event list"

text \<open>The fields of \<open>struct spi_transfer\<close> the driver reads.\<close>

record spi_transfer =
  xfer_tx_buf :: "nat option"
  xfer_rx_buf :: "nat option"
  len :: u32
  speed_hz :: u32

datatype error = EINVAL | DIVIDE_BY_ZERO

datatype irqreturn = IRQ_NONE | IRQ_HANDLED

subsection \<open>Register access\<close>

definition mchp_corespi_read :: "'h iomem \<Rightarrow> nat \<Rightarrow> 'h mchp_corespi \<Rightarrow> u32 \<times> 'h mchp_corespi" where
  "mchp_corespi_read io reg spi =
     (case readl io (regs spi) reg of
        (v, h) \<Rightarrow> (v, spi\<lparr>regs := h, trace := trace spi @ [Readl reg v]\<rparr>))"

definition mchp_corespi_write :: "'h iomem \<Rightarrow> nat \<Rightarrow> u32 \<Rightarrow> 'h mchp_corespi \<Rightarrow> 'h mchp_corespi" where
  "mchp_corespi_write io reg val spi =
     spi\<lparr>regs := writel io val (regs spi) reg, trace := trace spi @ [Writel reg val]\<rparr>"

definition mchp_corespi_disable :: "'h iomem \<Rightarrow> 'h mchp_corespi \<Rightarrow> 'h mchp_corespi" where
  "mchp_corespi_disable io spi =
     (case mchp_corespi_read io REG_CONTROL spi of
        (control, spi1) \<Rightarrow>
          mchp_corespi_write io REG_CONTROL (control AND NOT CONTROL_ENABLE) spi1)"

subsection \<open>Draining the receive FIFO\<close>

text \<open>
  The \<open>while\<close> loop of \<open>mchp_corespi_read_fifo\<close>. The status register is read only
  when \<open>i < fifo_max\<close> holds, as \<open>&&\<close> evaluates its right operand only then. The
  result is the final \<open>i\<close>.
\<close>

definition store_rx :: "u8 \<Rightarrow> 'h mchp_corespi \<Rightarrow> 'h mchp_corespi" where
  "store_rx data spi =
     (case rx_buf spi of
        None \<Rightarrow> spi
      | Some p \<Rightarrow> spi\<lparr>rx_buf := Some (p + 1), ram := (ram spi)(p := data)\<rparr>)"

function read_fifo_loop :: "'h iomem \<Rightarrow> int \<Rightarrow> int \<Rightarrow> 'h mchp_corespi \<Rightarrow> int \<times> 'h mchp_corespi" where
  "read_fifo_loop io fifo_max i spi =
     (if i < fifo_max then
        (case mchp_corespi_read io REG_STATUS spi of
           (status, spi1) \<Rightarrow>
             if status AND STATUS_RXFIFO_EMPTY = 0 then
               (case mchp_corespi_read io REG_RX_DATA spi1 of
                  (v, spi2) \<Rightarrow> read_fifo_loop io fifo_max (i + 1) (store_rx (ucast v) spi2))
             else (i, spi1))
      else (i, spi))"
  by pat_completeness auto
termination
  by (relation "measure (\<lambda>(io, fifo_max, i, spi). nat (fifo_max - i))") auto

declare read_fifo_loop.simps [simp del]

definition mchp_corespi_read_fifo :: "'h iomem \<Rightarrow> 'h mchp_corespi \<Rightarrow> 'h mchp_corespi" where
  "mchp_corespi_read_fifo io spi =
     (case read_fifo_loop io (min (rx_len spi) FIFO_DEPTH) 0 spi of
        (i, spi1) \<Rightarrow> spi1\<lparr>rx_len := rx_len spi1 - i, pending := pending spi1 - i\<rparr>)"

subsection \<open>Frame count and filling the transmit FIFO\<close>

text \<open>
  \<open>lenpart\<close> is a \<open>u16\<close>: the second assignment, of \<open>len & 0xffff0000\<close>, keeps the
  low 16 bits of that value.
\<close>

definition mchp_corespi_set_xfer_size :: "'h iomem \<Rightarrow> int \<Rightarrow> 'h mchp_corespi \<Rightarrow> 'h mchp_corespi" where
  "mchp_corespi_set_xfer_size io n spi =
     (let spi1 = mchp_corespi_disable io spi;
          lenpart = (ucast ((word_of_int n :: u32) AND 0xffff) :: u16)
      in case mchp_corespi_read io REG_CONTROL spi1 of
        (control0, spi2) \<Rightarrow>
          let control = (control0 AND NOT CONTROL_FRAMECNT_MASK)
                          OR push_bit CONTROL_FRAMECNT_SHIFT (ucast lenpart);
              spi3 = mchp_corespi_write io REG_CONTROL control spi2;
              lenpart2 = (ucast ((word_of_int n :: u32) AND 0xffff0000) :: u16);
              spi4 = mchp_corespi_write io REG_FRAMESUP (ucast lenpart2) spi3
          in mchp_corespi_write io REG_CONTROL (control OR CONTROL_ENABLE) spi4)"

definition next_tx_byte :: "'h mchp_corespi \<Rightarrow> u8 \<times> 'h mchp_corespi" where
  "next_tx_byte spi =
     (case tx_buf spi of
        None \<Rightarrow> (0xaa, spi)
      | Some p \<Rightarrow> (ram spi p, spi\<lparr>tx_buf := Some (p + 1)\<rparr>))"

function write_fifo_loop :: "'h iomem \<Rightarrow> int \<Rightarrow> int \<Rightarrow> 'h mchp_corespi \<Rightarrow> int \<times> 'h mchp_corespi" where
  "write_fifo_loop io fifo_max i spi =
     (if i < fifo_max then
        (case mchp_corespi_read io REG_STATUS spi of
           (status, spi1) \<Rightarrow>
             if status AND STATUS_TXFIFO_FULL = 0 then
               (case next_tx_byte spi1 of
                  (byte, spi2) \<Rightarrow>
                    write_fifo_loop io fifo_max (i + 1)
                      (mchp_corespi_write io REG_TX_DATA (ucast byte) spi2))
             else (i, spi1))
      else (i, spi))"
  by pat_completeness auto
termination
  by (relation "measure (\<lambda>(io, fifo_max, i, spi). nat (fifo_max - i))") auto

declare write_fifo_loop.simps [simp del]

definition mchp_corespi_write_fifo :: "'h iomem \<Rightarrow> 'h mchp_corespi \<Rightarrow> 'h mchp_corespi" where
  "mchp_corespi_write_fifo io spi =
     (let fifo_max = min (tx_len spi) FIFO_DEPTH;
          spi1 = mchp_corespi_set_xfer_size io fifo_max spi
      in case write_fifo_loop io fifo_max 0 spi1 of
        (i, spi2) \<Rightarrow> spi2\<lparr>tx_len := tx_len spi2 - i, pending := pending spi2 + i\<rparr>)"

subsection \<open>Chip select\<close>

text \<open>
  \<open>cs\<close> is \<open>spi_get_chipselect(spi, 0)\<close>. \<open>!disable << cs\<close> is a shift of the
  \<open>int\<close> 0 or 1, defined in C for \<open>cs < 31\<close>.
\<close>

definition mchp_corespi_set_cs :: "'h iomem \<Rightarrow> nat \<Rightarrow> bool \<Rightarrow> 'h mchp_corespi \<Rightarrow> 'h mchp_corespi" where
  "mchp_corespi_set_cs io cs disable spi =
     (case mchp_corespi_read io REG_SLAVE_SELECT spi of
        (reg, spi1) \<Rightarrow>
          mchp_corespi_write io REG_SLAVE_SELECT
            ((reg AND NOT (BIT cs)) OR push_bit cs (of_bool (\<not> disable))) spi1)"

subsection \<open>Clock divider\<close>

text \<open>
  Kernel helpers the driver uses. \<open>DIV_ROUND_UP(n, d)\<close> is \<open>(n + d - 1) / d\<close> on
  \<open>unsigned long\<close>. \<open>fls\<close> takes an \<open>unsigned int\<close> and returns the position of its
  most significant set bit, counted from 1, and 0 for 0.
\<close>

definition DIV_ROUND_UP :: "ulong \<Rightarrow> ulong \<Rightarrow> ulong" where
  "DIV_ROUND_UP n d = (n + d - 1) div d"

fun bit_length :: "nat \<Rightarrow> nat" where
  "bit_length n = (if n = 0 then 0 else Suc (bit_length (n div 2)))"

declare bit_length.simps [simp del]

definition fls :: "u32 \<Rightarrow> int" where
  "fls x = int (bit_length (unat x))"

text \<open>
  \<open>mchp_corespi_calculate_clkgen\<close>. A division by zero, undefined in C, is the
  outcome \<open>DIVIDE_BY_ZERO\<close>. The argument of \<open>fls\<close> is converted to \<open>unsigned int\<close>,
  and \<open>fls(clk_gen) - 1\<close>, an \<open>int\<close>, back to \<open>unsigned long\<close>. Nothing is stored
  when the function fails.
\<close>

definition mchp_corespi_calculate_clkgen :: "ulong \<Rightarrow> 'h mchp_corespi \<Rightarrow> error + 'h mchp_corespi" where
  "mchp_corespi_calculate_clkgen target_hz spi =
     (let clk_hz = clk spi in
      if clk_hz = 0 then Inl EINVAL
      else
        let spi_hz = min target_hz clk_hz in
        if 2 * spi_hz = 0 then Inl DIVIDE_BY_ZERO
        else
          let clk_gen = DIV_ROUND_UP clk_hz (2 * spi_hz) - 1 in
          if clk_gen > CLK_GEN_MODE1_MAX \<or> clk_gen \<le> CLK_GEN_MIN then
            if spi_hz = 0 then Inl DIVIDE_BY_ZERO
            else
              let clk_gen0 = DIV_ROUND_UP clk_hz spi_hz;
                  clk_gen1 = (word_of_int (fls (ucast clk_gen0) - 1) :: ulong)
              in if clk_gen1 > CLK_GEN_MODE0_MAX then Inl EINVAL
                 else Inr (spi\<lparr>clk_mode := 0, clk_gen := ucast clk_gen1\<rparr>)
          else Inr (spi\<lparr>clk_mode := 1, clk_gen := ucast clk_gen\<rparr>))"

text \<open>
  The division ratios as the comment in \<open>mchp_corespi_calculate_clkgen\<close> gives them:
  \<open>CLK_MODE = 1: 1 / (2 * CLK_GEN + 1)\<close> and \<open>CLK_MODE = 0: 1 / (2^(CLK_GEN + 1))\<close>.
\<close>

definition scheme_A_rate :: "nat \<Rightarrow> nat \<Rightarrow> nat" where
  "scheme_A_rate clk_hz d = clk_hz div (2 * d + 1)"

definition scheme_B_rate :: "nat \<Rightarrow> nat \<Rightarrow> nat" where
  "scheme_B_rate clk_hz d = clk_hz div 2 ^ (d + 1)"

definition mchp_corespi_set_clk_gen :: "'h iomem \<Rightarrow> 'h mchp_corespi \<Rightarrow> 'h mchp_corespi" where
  "mchp_corespi_set_clk_gen io spi =
     (let spi1 = mchp_corespi_disable io spi
      in case mchp_corespi_read io REG_CONTROL spi1 of
        (control0, spi2) \<Rightarrow>
          let control = (if clk_mode spi2 \<noteq> 0 then control0 OR CONTROL_CLKMODE
                         else control0 AND NOT CONTROL_CLKMODE);
              spi3 = mchp_corespi_write io REG_CLK_GEN (clk_gen spi2) spi2;
              spi4 = mchp_corespi_write io REG_CONTROL control spi3
          in mchp_corespi_write io REG_CONTROL (control OR CONTROL_ENABLE) spi4)"

subsection \<open>Starting a transfer\<close>

definition dev_err :: "message \<Rightarrow> 'h mchp_corespi \<Rightarrow> 'h mchp_corespi" where
  "dev_err m spi = spi\<lparr>trace := trace spi @ [Dev_err m]\<rparr>"

text \<open>
  \<open>mchp_corespi_transfer_one\<close> returns a negative errno or 1 (transfer in progress).
  \<open>xfer->len\<close> is an \<open>unsigned int\<close> assigned to the \<open>int\<close> counters.
\<close>

definition mchp_corespi_transfer_one ::
    "'h iomem \<Rightarrow> spi_transfer \<Rightarrow> 'h mchp_corespi \<Rightarrow> (error + int) \<times> 'h mchp_corespi" where
  "mchp_corespi_transfer_one io xfer spi =
     (case mchp_corespi_calculate_clkgen (ucast (speed_hz xfer)) spi of
        Inl e \<Rightarrow> (Inl e, dev_err (CLK_GEN_FAILED (speed_hz xfer)) spi)
      | Inr spi1 \<Rightarrow>
          let spi2 = mchp_corespi_set_clk_gen io spi1;
              spi3 = spi2\<lparr>tx_buf := xfer_tx_buf xfer, rx_buf := xfer_rx_buf xfer,
                          tx_len := sint (len xfer), rx_len := sint (len xfer),
                          pending := 0\<rparr>;
              spi4 = mchp_corespi_set_xfer_size io
                       (if tx_len spi3 > FIFO_DEPTH then FIFO_DEPTH else tx_len spi3) spi3
          in (Inr 1, if tx_len spi4 \<noteq> 0 then mchp_corespi_write_fifo io spi4 else spi4))"

subsection \<open>The interrupt handler\<close>

definition spi_finalize_current_transfer :: "'h mchp_corespi \<Rightarrow> 'h mchp_corespi" where
  "spi_finalize_current_transfer spi = spi\<lparr>trace := trace spi @ [Finalize]\<rparr>"

text \<open>
  The four \<open>if\<close> blocks of \<open>mchp_corespi_interrupt\<close>, in the order of the source.
  Each takes and returns the local \<open>finalise\<close> together with the driver state.
\<close>

definition irq_txdone :: "'h iomem \<Rightarrow> u32 \<Rightarrow> bool \<times> 'h mchp_corespi \<Rightarrow> bool \<times> 'h mchp_corespi" where
  "irq_txdone io intfield fs =
     (case fs of (finalise, spi) \<Rightarrow>
        if intfield AND INT_TXDONE \<noteq> 0 then
          let spi1 = mchp_corespi_write io REG_INT_CLEAR INT_TXDONE spi;
              spi2 = (if rx_len spi1 \<noteq> 0 then mchp_corespi_read_fifo io spi1 else spi1);
              spi3 = (if tx_len spi2 \<noteq> 0 then mchp_corespi_write_fifo io spi2 else spi2)
          in (if rx_len spi3 = 0 then True else finalise, spi3)
        else (finalise, spi))"

definition irq_rxrdy :: "'h iomem \<Rightarrow> u32 \<Rightarrow> bool \<times> 'h mchp_corespi \<Rightarrow> bool \<times> 'h mchp_corespi" where
  "irq_rxrdy io intfield fs =
     (case fs of (finalise, spi) \<Rightarrow>
        if intfield AND INT_RXRDY \<noteq> 0 then
          (finalise, mchp_corespi_write io REG_INT_CLEAR INT_RXRDY spi)
        else (finalise, spi))"

definition irq_rx_overflow :: "'h iomem \<Rightarrow> u32 \<Rightarrow> bool \<times> 'h mchp_corespi \<Rightarrow> bool \<times> 'h mchp_corespi" where
  "irq_rx_overflow io intfield fs =
     (case fs of (finalise, spi) \<Rightarrow>
        if intfield AND INT_RX_CHANNEL_OVERFLOW \<noteq> 0 then
          let spi1 = mchp_corespi_write io REG_INT_CLEAR INT_RX_CHANNEL_OVERFLOW spi
          in (True, dev_err (RX_OVERFLOW (rx_len spi1) (tx_len spi1)) spi1)
        else (finalise, spi))"

definition irq_tx_underrun :: "'h iomem \<Rightarrow> u32 \<Rightarrow> bool \<times> 'h mchp_corespi \<Rightarrow> bool \<times> 'h mchp_corespi" where
  "irq_tx_underrun io intfield fs =
     (case fs of (finalise, spi) \<Rightarrow>
        if intfield AND INT_TX_CHANNEL_UNDERRUN \<noteq> 0 then
          let spi1 = mchp_corespi_write io REG_INT_CLEAR INT_TX_CHANNEL_UNDERRUN spi
          in (True, dev_err (TX_UNDERFLOW (rx_len spi1) (tx_len spi1)) spi1)
        else (finalise, spi))"

definition mchp_corespi_interrupt :: "'h iomem \<Rightarrow> 'h mchp_corespi \<Rightarrow> irqreturn \<times> 'h mchp_corespi" where
  "mchp_corespi_interrupt io spi =
     (case mchp_corespi_read io REG_MIS spi of
        (mis, spi0) \<Rightarrow>
          let intfield = mis AND 0xf in
          if intfield = 0 then (IRQ_NONE, spi0)
          else
            (case irq_tx_underrun io intfield
                    (irq_rx_overflow io intfield
                      (irq_rxrdy io intfield
                        (irq_txdone io intfield (False, spi0)))) of
               (finalise, spi1) \<Rightarrow>
                 (IRQ_HANDLED,
                  if finalise then spi_finalize_current_transfer spi1 else spi1)))"

subsection \<open>Observations on the event list\<close>

definition tx_writes :: "event list \<Rightarrow> u32 list" where
  "tx_writes evs =
     concat (map (\<lambda>e. case e of Writel r v \<Rightarrow> if r = REG_TX_DATA then [v] else [] | _ \<Rightarrow> []) evs)"

definition rx_reads :: "event list \<Rightarrow> u32 list" where
  "rx_reads evs =
     concat (map (\<lambda>e. case e of Readl r v \<Rightarrow> if r = REG_RX_DATA then [v] else [] | _ \<Rightarrow> []) evs)"

definition finalized :: "event list \<Rightarrow> nat" where
  "finalized evs = length (filter (\<lambda>e. e = Finalize) evs)"

text \<open>The events a run from \<open>spi\<close> to \<open>spi'\<close> has added.\<close>

definition since :: "'h mchp_corespi \<Rightarrow> 'h mchp_corespi \<Rightarrow> event list" where
  "since spi spi' = drop (length (trace spi)) (trace spi')"

text \<open>
  The frame count field of a CONTROL value, and the register accesses of
  \<open>mchp_corespi_set_xfer_size\<close> for the two values \<open>c0\<close> and \<open>c1\<close> it reads from
  CONTROL and the value \<open>c2\<close> it programs.
\<close>

definition framecnt :: "u32 \<Rightarrow> nat" where
  "framecnt control = unat (drop_bit CONTROL_FRAMECNT_SHIFT (control AND CONTROL_FRAMECNT_MASK))"

definition xfer_size_events :: "u32 \<Rightarrow> u32 \<Rightarrow> u32 \<Rightarrow> event list" where
  "xfer_size_events c0 c1 c2 =
     [Readl REG_CONTROL c0, Writel REG_CONTROL (c0 AND NOT CONTROL_ENABLE),
      Readl REG_CONTROL c1, Writel REG_CONTROL c2, Writel REG_FRAMESUP 0,
      Writel REG_CONTROL (c2 OR CONTROL_ENABLE)]"

text \<open>
  Kinds of events: the register accesses of the drain loop (reads of STATUS and
  RX_DATA), those of the fill loop (reads of STATUS, writes of TX_DATA), and any
  access to one of these three registers.
\<close>

fun drain_event :: "event \<Rightarrow> bool" where
  "drain_event (Readl r v) = (r = REG_STATUS \<or> r = REG_RX_DATA)"
| "drain_event _ = False"

fun fill_event :: "event \<Rightarrow> bool" where
  "fill_event (Readl r v) = (r = REG_STATUS)"
| "fill_event (Writel r v) = (r = REG_TX_DATA)"
| "fill_event _ = False"

fun fifo_event :: "event \<Rightarrow> bool" where
  "fifo_event (Readl r v) = (r = REG_STATUS \<or> r = REG_RX_DATA \<or> r = REG_TX_DATA)"
| "fifo_event (Writel r v) = (r = REG_STATUS \<or> r = REG_RX_DATA \<or> r = REG_TX_DATA)"
| "fifo_event _ = False"

text \<open>
  An interrupt cause field carries a fault when the receive-overflow or the
  transmit-underrun bit is set. \<open>fault_events\<close> are the events of the last three
  blocks of the handler for a cause field and the remaining lengths.
\<close>

definition fault_cause :: "u32 \<Rightarrow> bool" where
  "fault_cause intfield =
     (intfield AND INT_RX_CHANNEL_OVERFLOW \<noteq> 0 \<or> intfield AND INT_TX_CHANNEL_UNDERRUN \<noteq> 0)"

definition fault_events :: "u32 \<Rightarrow> int \<Rightarrow> int \<Rightarrow> event list" where
  "fault_events intfield rxlen txlen =
     (if intfield AND INT_RXRDY \<noteq> 0 then [Writel REG_INT_CLEAR INT_RXRDY] else []) @
     (if intfield AND INT_RX_CHANNEL_OVERFLOW \<noteq> 0
      then [Writel REG_INT_CLEAR INT_RX_CHANNEL_OVERFLOW, Dev_err (RX_OVERFLOW rxlen txlen)]
      else []) @
     (if intfield AND INT_TX_CHANNEL_UNDERRUN \<noteq> 0
      then [Writel REG_INT_CLEAR INT_TX_CHANNEL_UNDERRUN, Dev_err (TX_UNDERFLOW rxlen txlen)]
      else [])"

subsection \<open>Sessions\<close>

text \<open>
  The states a transfer session passes through: the state \<open>mchp_corespi_transfer_one\<close>
  leaves when it accepts the transfer, and from there any number of interrupts, with
  the hardware changing the register block between the driver's calls as the relation
  \<open>env\<close> allows.
\<close>

inductive session ::
    "'h iomem \<Rightarrow> ('h \<Rightarrow> 'h \<Rightarrow> bool) \<Rightarrow> spi_transfer \<Rightarrow> 'h mchp_corespi \<Rightarrow> 'h mchp_corespi \<Rightarrow> bool"
    for io env xfer spi0 where
  session_begin:
    "mchp_corespi_transfer_one io xfer spi0 = (Inr r, spi) \<Longrightarrow> session io env xfer spi0 spi"
| session_hw:
    "session io env xfer spi0 spi \<Longrightarrow> env (regs spi) h \<Longrightarrow>
     session io env xfer spi0 (spi\<lparr>regs := h\<rparr>)"
| session_irq:
    "session io env xfer spi0 spi \<Longrightarrow> mchp_corespi_interrupt io spi = (r, spi') \<Longrightarrow>
     session io env xfer spi0 spi'"

subsection \<open>A model of the controller\<close>

text \<open>
  The register block as the register table of the driver's header comment and bit
  names describe it: two FIFOs of 32 frames, RX_DATA removes the oldest received
  frame, TX_DATA queues a frame, STATUS reports the transmit FIFO full and the receive
  FIFO empty, INT_CLEAR clears the written bits of MIS; every other offset is a plain
  register. It is used where a statement needs a device to run the driver against.
\<close>

record corespi_hw =
  reg_file :: "nat \<Rightarrow> u32"
  rx_fifo :: "u8 list"
  tx_fifo :: "u8 list"

definition hw_status :: "corespi_hw \<Rightarrow> u32" where
  "hw_status h =
     (if 32 \<le> length (tx_fifo h) then STATUS_TXFIFO_FULL else 0)
       OR (if rx_fifo h = [] then STATUS_RXFIFO_EMPTY else 0)"

definition hw_readl :: "corespi_hw \<Rightarrow> nat \<Rightarrow> u32 \<times> corespi_hw" where
  "hw_readl h reg =
     (if reg = REG_RX_DATA then
        (case rx_fifo h of [] \<Rightarrow> (0, h) | b # bs \<Rightarrow> (ucast b, h\<lparr>rx_fifo := bs\<rparr>))
      else if reg = REG_STATUS then (hw_status h, h)
      else (reg_file h reg, h))"

definition hw_writel :: "u32 \<Rightarrow> corespi_hw \<Rightarrow> nat \<Rightarrow> corespi_hw" where
  "hw_writel v h reg =
     (if reg = REG_TX_DATA then
        (if length (tx_fifo h) < 32 then h\<lparr>tx_fifo := tx_fifo h @ [ucast v]\<rparr> else h)
      else if reg = REG_INT_CLEAR then
        h\<lparr>reg_file := (reg_file h)(REG_MIS := reg_file h REG_MIS AND NOT v)\<rparr>
      else h\<lparr>reg_file := (reg_file h)(reg := v)\<rparr>)"

definition corespi :: "corespi_hw iomem" where
  "corespi = \<lparr>readl = hw_readl, writel = hw_writel\<rparr>"

text \<open>
  What the bus does between two calls of the driver: some frames leave the transmit
  FIFO, at most as many frames arrive in the receive FIFO (a frame is lost when the
  FIFO is full), and the interrupt causes in MIS change.
\<close>

inductive bus_activity :: "corespi_hw \<Rightarrow> corespi_hw \<Rightarrow> bool" where
  "k \<le> length (tx_fifo h) \<Longrightarrow> length rx \<le> k \<Longrightarrow> length (rx_fifo h) + length rx \<le> 32 \<Longrightarrow>
   bus_activity h
     (h\<lparr>reg_file := (reg_file h)(REG_MIS := m),
        rx_fifo := rx_fifo h @ rx, tx_fifo := drop k (tx_fifo h)\<rparr>)"

text \<open>
  A loop-back wire: every queued frame is shifted out and received again, and the
  transfer-done cause is raised.
\<close>

definition loopback :: "corespi_hw \<Rightarrow> corespi_hw" where
  "loopback h =
     h\<lparr>reg_file := (reg_file h)(REG_MIS := reg_file h REG_MIS OR INT_TXDONE),
       rx_fifo := take 32 (rx_fifo h @ tx_fifo h), tx_fifo := []\<rparr>"

definition idle_hw :: corespi_hw where
  "idle_hw = \<lparr>reg_file = (\<lambda>r. 0), rx_fifo = [], tx_fifo = []\<rparr>"

text \<open>
  A driver instance on an idle controller with a source clock of 20 MHz, and memory
  holding the bytes \<open>0x01 .. 0x28\<close> at the addresses 100 to 139.
\<close>

definition spi_20MHz :: "corespi_hw mchp_corespi" where
  "spi_20MHz =
     \<lparr>regs = idle_hw, clk = 20000000, tx_buf = None, rx_buf = None, clk_gen = 0,
      clk_mode = 0, irq = 1, tx_len = 0, rx_len = 0, pending = 0,
      ram = (\<lambda>a. if 100 \<le> a \<and> a < 140 then of_nat (a - 99) else 0), trace = []\<rparr>"

definition smallest :: "(nat \<Rightarrow> bool) \<Rightarrow> nat \<Rightarrow> bool" where
  "smallest P d = (P d \<and> (\<forall>d'<d. \<not> P d'))"

text \<open>A transfer of 40 bytes at a rate no divider reaches from 20 MHz.\<close>

definition xfer_slow :: spi_transfer where
  "xfer_slow = \<lparr>xfer_tx_buf = Some 100, xfer_rx_buf = Some 200, len = 40, speed_hz = 100\<rparr>"

text \<open>
  Driver states on an idle controller for single operations: three bytes left to send
  with no transmit buffer, and two bytes left to receive with no receive buffer while
  the receive FIFO holds the frames 7 and 9.
\<close>

definition spi_tx3 :: "corespi_hw mchp_corespi" where
  "spi_tx3 = spi_20MHz\<lparr>tx_len := 3, rx_len := 3\<rparr>"

definition spi_rx2 :: "corespi_hw mchp_corespi" where
  "spi_rx2 = spi_20MHz\<lparr>regs := idle_hw\<lparr>rx_fifo := [7, 9]\<rparr>, rx_len := 2, pending := 2\<rparr>"

text \<open>
  A driver instance whose SLAVE_SELECT register holds the direct-mode and output-enable
  bits and the select lines 0 and 2.
\<close>

definition spi_cs :: "corespi_hw mchp_corespi" where
  "spi_cs = spi_20MHz\<lparr>regs := idle_hw\<lparr>reg_file := (\<lambda>r. if r = REG_SLAVE_SELECT then 0x305 else 0)\<rparr>\<rparr>"

text \<open>
  Driver states for single interrupts, on a controller whose MIS register holds the
  given causes. \<open>spi_last\<close>: transfer-done, two received frames waiting, nothing left
  to send. \<open>spi_done_over\<close>: transfer-done together with receive-overflow, two bytes
  left to send and 34 to receive, receive FIFO empty. \<open>spi_over\<close>: receive-overflow
  alone.
\<close>

definition mis_hw :: "u32 \<Rightarrow> corespi_hw" where
  "mis_hw causes = idle_hw\<lparr>reg_file := (\<lambda>r. if r = REG_MIS then causes else 0)\<rparr>"

definition spi_last :: "corespi_hw mchp_corespi" where
  "spi_last = spi_20MHz\<lparr>regs := (mis_hw 1)\<lparr>rx_fifo := [7, 9]\<rparr>, rx_buf := Some 200,
                        rx_len := 2, pending := 2\<rparr>"

definition spi_done_over :: "corespi_hw mchp_corespi" where
  "spi_done_over = spi_20MHz\<lparr>regs := mis_hw 5, tx_len := 2, rx_len := 34, pending := 32\<rparr>"

definition spi_over :: "corespi_hw mchp_corespi" where
  "spi_over = spi_20MHz\<lparr>regs := mis_hw 4, tx_len := 2, rx_len := 34, pending := 32\<rparr>"

text \<open>Transfers at 1 MHz: of no bytes, and of the 40 bytes at 100 into the buffer at 200.\<close>

definition xfer0 :: spi_transfer where
  "xfer0 = \<lparr>xfer_tx_buf = Some 100, xfer_rx_buf = Some 200, len = 0, speed_hz = 1000000\<rparr>"

definition xfer40 :: spi_transfer where
  "xfer40 = \<lparr>xfer_tx_buf = Some 100, xfer_rx_buf = Some 200, len = 40, speed_hz = 1000000\<rparr>"

text \<open>
  The frames the driver counts as in flight that are in neither FIFO of the model:
  they are on the wire, or lost to a full receive FIFO.
\<close>

definition on_the_wire :: "corespi_hw mchp_corespi \<Rightarrow> int" where
  "on_the_wire spi =
     pending spi - int (length (tx_fifo (regs spi))) - int (length (rx_fifo (regs spi)))"

text \<open>
  The register accesses of the iterations of the two loops: an iteration of the fill
  loop reads STATUS and writes TX_DATA, an iteration of the drain loop reads STATUS and
  reads RX_DATA. \<open>sts\<close> are the values read from STATUS, \<open>svs\<close> these together with
  the values read from RX_DATA.
\<close>

definition fill_accesses :: "u32 list \<Rightarrow> u32 \<Rightarrow> event list" where
  "fill_accesses sts v = concat (map (\<lambda>st. [Readl REG_STATUS st, Writel REG_TX_DATA v]) sts)"

definition drain_accesses :: "(u32 \<times> u32) list \<Rightarrow> event list" where
  "drain_accesses svs = concat (map (\<lambda>(st, v). [Readl REG_STATUS st, Readl REG_RX_DATA v]) svs)"

text \<open>
  The events are the accesses the driver has made: \<open>replay\<close> makes the accesses of an
  event list on a register block, and fails when a read does not return the value the
  event holds. \<open>performed io spi spi'\<close>: the event list of \<open>spi'\<close> extends that of \<open>spi\<close>
  by accesses that take the register block of \<open>spi\<close> to that of \<open>spi'\<close>.
\<close>

fun replay :: "'h iomem \<Rightarrow> event list \<Rightarrow> 'h \<Rightarrow> 'h option" where
  "replay io [] h = Some h"
| "replay io (Readl r v # evs) h =
     (case readl io h r of (v', h') \<Rightarrow> if v' = v then replay io evs h' else None)"
| "replay io (Writel r v # evs) h = replay io evs (writel io v h r)"
| "replay io (Dev_err m # evs) h = replay io evs h"
| "replay io (Finalize # evs) h = replay io evs h"

definition performed :: "'h iomem \<Rightarrow> 'h mchp_corespi \<Rightarrow> 'h mchp_corespi \<Rightarrow> bool" where
  "performed io spi spi' =
     (\<exists>evs. trace spi' = trace spi @ evs \<and> replay io evs (regs spi) = Some (regs spi'))"

text \<open>
  A transfer of two bytes started on a controller that a previous transfer has left
  with two frames in the receive FIFO and a full transmit FIFO, and a bus that does
  nothing but raise the transfer-done cause.
\<close>

definition spi_stale :: "corespi_hw mchp_corespi" where
  "spi_stale = spi_20MHz\<lparr>regs := idle_hw\<lparr>rx_fifo := [7, 9], tx_fifo := replicate 32 0\<rparr>\<rparr>"

definition xfer2 :: spi_transfer where
  "xfer2 = \<lparr>xfer_tx_buf = Some 100, xfer_rx_buf = Some 200, len = 2, speed_hz = 1000000\<rparr>"

definition raise_txdone :: "corespi_hw \<Rightarrow> corespi_hw" where
  "raise_txdone h = h\<lparr>reg_file := (reg_file h)(REG_MIS := INT_TXDONE)\<rparr>"

section \<open>The clock divider computation\<close>

subsection \<open>Arithmetic of the computation\<close>

lemma ceil_div_le: "0 < m \<Longrightarrow> ((c + m - 1) div m \<le> k) = (c \<le> k * (m::nat))"
proof -
  assume m: "0 < m"
  have "((c + m - 1) div m \<le> k) = ((c + m - 1) div m < Suc k)" by auto
  also have "\<dots> = (c + m - 1 < Suc k * m)" using m by (simp add: div_less_iff_less_mult)
  also have "\<dots> = (c \<le> k * m)" using m by auto
  finally show ?thesis .
qed

lemma bit_length_bounds: "0 < n \<Longrightarrow> 2 ^ (bit_length n - 1) \<le> n \<and> n < 2 ^ bit_length n"
proof (induction n rule: bit_length.induct)
  case (1 n)
  show ?case
  proof (cases "n div 2 = 0")
    case True
    with 1 have "n = 1" by (cases n) auto
    then show ?thesis by (simp add: bit_length.simps)
  next
    case False
    with 1 have ih: "2 ^ (bit_length (n div 2) - 1) \<le> n div 2" "n div 2 < 2 ^ bit_length (n div 2)" by auto
    have bl: "bit_length n = Suc (bit_length (n div 2))" using 1 by (subst bit_length.simps) auto
    have pos: "0 < bit_length (n div 2)" using False by (subst bit_length.simps) auto
    then obtain k where k: "bit_length (n div 2) = Suc k" by (cases "bit_length (n div 2)") auto
    from ih show ?thesis unfolding bl k by auto
  qed
qed

lemma bit_length_le: "(bit_length n \<le> k) = (n < 2 ^ k)"
proof (cases "n = 0")
  case True then show ?thesis by (simp add: bit_length.simps)
next
  case False
  then have b: "2 ^ (bit_length n - 1) \<le> n" "n < 2 ^ bit_length n" using bit_length_bounds[of n] by auto
  have pos: "0 < bit_length n" using False by (subst bit_length.simps) auto
  show ?thesis
  proof
    assume "bit_length n \<le> k"
    then have "(2::nat) ^ bit_length n \<le> 2 ^ k" by (simp add: power_increasing)
    with b show "n < 2 ^ k" by linarith
  next
    assume n: "n < 2 ^ k"
    show "bit_length n \<le> k"
    proof (rule ccontr)
      assume "\<not> bit_length n \<le> k"
      then have "k \<le> bit_length n - 1" by auto
      then have "(2::nat) ^ k \<le> 2 ^ (bit_length n - 1)" by (simp add: power_increasing)
      with b n show False by linarith
    qed
  qed
qed

lemma ucast_of_nat_small: "n < 2 ^ 32 \<Longrightarrow> (ucast (of_nat n :: ulong) :: u32) = of_nat n"
proof -
  assume "n < 2 ^ 32"
  then have "n < 2 ^ 64" by simp
  then have "take_bit 64 n = n" by (rule take_bit_nat_eq_self)
  then show ?thesis by (simp add: unsigned_of_nat)
qed

lemma unat_DIV_ROUND_UP:
  assumes "0 < unat d" "unat n + unat d < 2 ^ 64"
  shows "unat (DIV_ROUND_UP n d) = (unat n + unat d - 1) div unat d"
proof -
  have nd: "unat (n + d) = unat n + unat d"
    using assms(2) unat_add_lem[of n d] by simp
  have "n + d \<noteq> 0" using assms nd by (metis add_is_0 less_numeral_extra(3) unat_eq_0)
  then have "unat (n + d - 1) = unat n + unat d - 1"
    using nd by (simp add: unat_minus_one)
  then show ?thesis by (simp add: DIV_ROUND_UP_def unat_div)
qed

lemma calculate_clkgen_nat:
  assumes "0 < target_hz" "target_hz \<le> clk spi" "clk spi < 2 ^ 32"
  shows "mchp_corespi_calculate_clkgen target_hz spi =
     (let c = unat (clk spi); t = unat target_hz; d1 = (c + 2 * t - 1) div (2 * t) - 1 in
      if 255 < d1 \<or> d1 = 0 then
        (let d0 = bit_length ((c + t - 1) div t) - 1
         in if 15 < d0 then Inl EINVAL else Inr (spi\<lparr>clk_mode := 0, clk_gen := of_nat d0\<rparr>))
      else Inr (spi\<lparr>clk_mode := 1, clk_gen := of_nat d1\<rparr>))"
proof -
  define c where "c = unat (clk spi)"
  define t where "t = unat target_hz"
  define q1 where "q1 = (c + 2 * t - 1) div (2 * t)"
  define q0 where "q0 = (c + t - 1) div t"
  have t0: "0 < t" using assms(1) by (simp add: t_def word_less_nat_alt)
  have tc: "t \<le> c" using assms(2) by (simp add: t_def c_def word_le_nat_alt)
  have c32: "c < 2 ^ 32" using assms(3) by (simp add: c_def word_less_nat_alt)
  have clk0: "clk spi \<noteq> 0" using t0 tc by (auto simp: c_def)
  have mn: "min target_hz (clk spi) = target_hz" using assms(2) by (simp add: min_def)
  have u2t: "unat (2 * target_hz) = 2 * t" unfolding t_def using tc c32
    by (simp add: unat_word_ariths t_def)
  have t2n0: "2 * target_hz \<noteq> 0" using u2t t0 by (metis mult_is_0 not_less_zero unat_0 zero_neq_numeral)
  have tn0: "target_hz \<noteq> 0" using t0 by (auto simp: t_def)
  have uq1: "unat (DIV_ROUND_UP (clk spi) (2 * target_hz)) = q1"
    unfolding q1_def c_def using unat_DIV_ROUND_UP[of "2 * target_hz" "clk spi"] u2t t0 tc c32
    by (simp add: c_def)
  have uq0: "unat (DIV_ROUND_UP (clk spi) target_hz) = q0"
    unfolding q0_def c_def t_def using unat_DIV_ROUND_UP[of "target_hz" "clk spi"] t0 tc c32
    by (simp add: c_def t_def)
  have q1pos: "0 < q1" unfolding q1_def using t0 tc by (simp add: div_greater_zero_iff)
  have q0pos: "0 < q0" unfolding q0_def using t0 tc by (simp add: div_greater_zero_iff)
  have q1le: "q1 \<le> c" using ceil_div_le[of "2 * t" c c] t0 tc by (simp add: q1_def)
  have q0le: "q0 \<le> c" using ceil_div_le[of "t" c c] t0 tc by (simp add: q0_def)
  have ud1: "unat (DIV_ROUND_UP (clk spi) (2 * target_hz) - 1) = q1 - 1"
    using uq1 q1pos by (metis less_numeral_extra(3) unat_0 unat_minus_one)
  have d1w: "DIV_ROUND_UP (clk spi) (2 * target_hz) - 1 = (of_nat (q1 - 1) :: ulong)"
  proof -
    have "of_nat (unat (DIV_ROUND_UP (clk spi) (2 * target_hz) - 1)) = (DIV_ROUND_UP (clk spi) (2 * target_hz) - 1)"
      by simp
    then show ?thesis by (simp only: ud1)
  qed
  have cmp1: "(DIV_ROUND_UP (clk spi) (2 * target_hz) - 1 > CLK_GEN_MODE1_MAX) = (255 < q1 - 1)"
    by (simp add: CLK_GEN_MODE1_MAX_def word_less_nat_alt ud1)
  have cmp2: "(DIV_ROUND_UP (clk spi) (2 * target_hz) - 1 \<le> CLK_GEN_MIN) = (q1 - 1 = 0)"
    by (simp add: CLK_GEN_MIN_def word_le_nat_alt ud1)
  have uc: "unat (ucast (DIV_ROUND_UP (clk spi) target_hz) :: u32) = q0"
    using uq0 q0le c32 by (simp add: unsigned_ucast_eq take_bit_nat_eq_self_iff)
  have fl: "fls (ucast (DIV_ROUND_UP (clk spi) target_hz)) - 1 = int (bit_length q0 - 1)"
  proof -
    have "0 < bit_length q0" using q0pos by (subst bit_length.simps) auto
    then show ?thesis by (simp add: fls_def uc of_nat_diff)
  qed
  have bl32: "bit_length q0 \<le> 32" using q0le c32 by (simp add: bit_length_le)
  define w0 where "w0 = (word_of_int (fls (ucast (DIV_ROUND_UP (clk spi) target_hz)) - 1) :: ulong)"
  have w0: "w0 = of_nat (bit_length q0 - 1)"
    unfolding w0_def fl by (rule of_int_of_nat_eq)
  have ud0: "unat w0 = bit_length q0 - 1"
    unfolding w0 using bl32 by (simp add: unat_of_nat)
  have cmp0: "(w0 > CLK_GEN_MODE0_MAX) = (15 < bit_length q0 - 1)"
    by (simp add: CLK_GEN_MODE0_MAX_def word_less_nat_alt ud0)
  have cast0: "(ucast w0 :: u32) = of_nat (bit_length q0 - 1)"
    unfolding w0 using bl32 by (intro ucast_of_nat_small) simp
  have cast1: "(ucast (DIV_ROUND_UP (clk spi) (2 * target_hz) - 1) :: u32) = of_nat (q1 - 1)"
    unfolding d1w using q1le c32 by (intro ucast_of_nat_small) simp
  have main: "mchp_corespi_calculate_clkgen target_hz spi =
     (if 255 < q1 - 1 \<or> q1 - 1 = 0 then
        (if 15 < bit_length q0 - 1 then Inl EINVAL
         else Inr (spi\<lparr>clk_mode := 0, clk_gen := of_nat (bit_length q0 - 1)\<rparr>))
      else Inr (spi\<lparr>clk_mode := 1, clk_gen := of_nat (q1 - 1)\<rparr>))"
    unfolding mchp_corespi_calculate_clkgen_def Let_def mn w0_def[symmetric]
    using clk0 t2n0 tn0 cmp0 cmp1 cmp2 cast0 cast1
    by simp
  show ?thesis
    unfolding main Let_def q1_def q0_def c_def t_def ..
qed

lemma smallest_A:
  assumes "0 < t" "t \<le> c"
  shows "smallest (\<lambda>d. c \<le> 2 * (d + 1) * t) ((c + 2 * t - 1) div (2 * t) - 1)"
proof -
  define q where "q = (c + 2 * t - 1) div (2 * t)"
  have P: "\<And>d. (c \<le> 2 * (d + 1) * t) = (q \<le> d + 1)"
    using ceil_div_le[of "2 * t" c] assms(1) by (simp add: q_def mult.commute mult.left_commute)
  have "0 < q" unfolding q_def using assms by (simp add: div_greater_zero_iff)
  then show ?thesis unfolding smallest_def P q_def[symmetric] by auto
qed

lemma smallest_B:
  assumes "0 < t" "t \<le> c"
  shows "smallest (\<lambda>d. c \<le> (2 ^ (d + 1) - 1) * t) (bit_length ((c + t - 1) div t) - 1)"
proof -
  define q where "q = (c + t - 1) div t"
  have P: "\<And>d. (c \<le> (2 ^ (d + 1) - 1) * t) = (bit_length q \<le> d + 1)"
  proof -
    fix d
    have "(c \<le> (2 ^ (d + 1) - 1) * t) = (q \<le> 2 ^ (d + 1) - 1)"
      using ceil_div_le[of t c "2 ^ (d + 1) - 1"] assms(1) by (simp add: q_def)
    also have "\<dots> = (q < 2 ^ (d + 1))"
    proof -
      have "(0::nat) < 2 ^ (d + 1)" by simp
      then show ?thesis by linarith
    qed
    also have "\<dots> = (bit_length q \<le> d + 1)" by (simp add: bit_length_le)
    finally show "(c \<le> (2 ^ (d + 1) - 1) * t) = (bit_length q \<le> d + 1)" .
  qed
  have "0 < q" unfolding q_def using assms by (simp add: div_greater_zero_iff)
  then have "0 < bit_length q" by (subst bit_length.simps) auto
  then show ?thesis unfolding smallest_def P q_def[symmetric] by auto
qed

lemma rate_le: "c \<le> m * (t::nat) \<Longrightarrow> c div m \<le> t"
  by (metis div_le_dividend div_le_mono le_zero_eq linorder_linear mult_is_0
    nonzero_mult_div_cancel_left)

lemma clkgen_fails:
  assumes "0 < target_hz" "clk spi < 2 ^ 32" "65535 * unat target_hz < unat (clk spi)"
  shows "mchp_corespi_calculate_clkgen target_hz spi = Inl EINVAL"
proof -
  define c where "c = unat (clk spi)"
  define t where "t = unat target_hz"
  define d1 where "d1 = (c + 2 * t - 1) div (2 * t) - 1"
  define d0 where "d0 = bit_length ((c + t - 1) div t) - 1"
  have t0: "0 < t" using assms(1) by (simp add: t_def word_less_nat_alt)
  have big: "65535 * t < c" using assms(3) by (simp add: t_def c_def)
  then have tc: "t \<le> c" by simp
  then have le: "target_hz \<le> clk spi" by (simp add: t_def c_def word_le_nat_alt)
  have PA: "c \<le> 2 * (d1 + 1) * t"
    using smallest_A[OF t0 tc] by (simp add: smallest_def d1_def)
  have PB: "c \<le> (2 ^ (d0 + 1) - 1) * t"
    using smallest_B[OF t0 tc] by (simp add: smallest_def d0_def)
  have A: "255 < d1"
  proof (rule ccontr)
    assume "\<not> 255 < d1"
    then have "2 * (d1 + 1) \<le> 65535" by simp
    then have "2 * (d1 + 1) * t \<le> 65535 * t" by (rule mult_le_mono1)
    with PA big show False by linarith
  qed
  have B: "15 < d0"
  proof (rule ccontr)
    assume "\<not> 15 < d0"
    then have "d0 + 1 \<le> 16" by simp
    then have "(2::nat) ^ (d0 + 1) \<le> 2 ^ 16" by (intro power_increasing) auto
    then have "(2::nat) ^ (d0 + 1) - 1 \<le> 65535" by simp
    then have "(2 ^ (d0 + 1) - 1) * t \<le> 65535 * t" by (rule mult_le_mono1)
    with PB big show False by linarith
  qed
  show ?thesis
    using calculate_clkgen_nat[OF assms(1) le assms(2)] A B
    by (simp add: Let_def c_def t_def d1_def d0_def)
qed

subsection \<open>Selection of the divider\<close>

text \<open>
  What the computation returns, for a target rate \<open>t\<close> with \<open>0 < t \<le> c\<close>, where the
  source clock rate \<open>c\<close> is below \<open>2^32\<close> Hz. With \<open>d1\<close> the smallest \<open>d\<close> such that
  \<open>c \<le> 2 * (d + 1) * t\<close> and \<open>d0\<close> the smallest \<open>d\<close> such that
  \<open>c \<le> (2^(d + 1) - 1) * t\<close>: mode 1 with \<open>d1\<close> when \<open>d1\<close> lies in 1..255, otherwise
  mode 0 with \<open>d0\<close> when \<open>d0\<close> is at most 15, otherwise \<open>EINVAL\<close>.
\<close>

lemma calculate_clkgen_exact:
  assumes "0 < target_hz" "target_hz \<le> clk spi" "clk spi < 2 ^ 32"
  shows "case mchp_corespi_calculate_clkgen target_hz spi of
      Inl e \<Rightarrow> e = EINVAL \<and> 65535 * unat target_hz < unat (clk spi)
    | Inr spi' \<Rightarrow>
        (let c = unat (clk spi); t = unat target_hz; d = unat (clk_gen spi') in
         c \<le> 65535 * t \<and>
         spi' = spi\<lparr>clk_mode := clk_mode spi', clk_gen := clk_gen spi'\<rparr> \<and>
         (if clk_mode spi' = 1 then
            1 \<le> d \<and> d \<le> 255 \<and> smallest (\<lambda>d. c \<le> 2 * (d + 1) * t) d \<and>
            c div (2 * (d + 1)) \<le> t
          else
            clk_mode spi' = 0 \<and> d \<le> 15 \<and> smallest (\<lambda>d. c \<le> (2 ^ (d + 1) - 1) * t) d \<and>
            scheme_B_rate c d \<le> t \<and>
            (\<exists>d1. smallest (\<lambda>d. c \<le> 2 * (d + 1) * t) d1 \<and> (d1 = 0 \<or> 255 < d1))))"
proof -
  define c where "c = unat (clk spi)"
  define t where "t = unat target_hz"
  define d1 where "d1 = (c + 2 * t - 1) div (2 * t) - 1"
  define d0 where "d0 = bit_length ((c + t - 1) div t) - 1"
  have t0: "0 < t" using assms(1) by (simp add: t_def word_less_nat_alt)
  have tc: "t \<le> c" using assms(2) by (simp add: t_def c_def word_le_nat_alt)
  have sA: "smallest (\<lambda>d. c \<le> 2 * (d + 1) * t) d1"
    unfolding d1_def by (rule smallest_A[OF t0 tc])
  have sB: "smallest (\<lambda>d. c \<le> (2 ^ (d + 1) - 1) * t) d0"
    unfolding d0_def by (rule smallest_B[OF t0 tc])
  have PA: "c \<le> 2 * (d1 + 1) * t" using sA by (simp add: smallest_def)
  have PB: "c \<le> (2 ^ (d0 + 1) - 1) * t" using sB by (simp add: smallest_def)
  have nat_form: "mchp_corespi_calculate_clkgen target_hz spi =
      (if 255 < d1 \<or> d1 = 0 then
         (if 15 < d0 then Inl EINVAL else Inr (spi\<lparr>clk_mode := 0, clk_gen := of_nat d0\<rparr>))
       else Inr (spi\<lparr>clk_mode := 1, clk_gen := of_nat d1\<rparr>))"
    using calculate_clkgen_nat[OF assms]
    by (simp add: Let_def c_def t_def d1_def d0_def)
  show ?thesis
  proof (cases "255 < d1 \<or> d1 = 0")
    case False
    then have d1: "1 \<le> d1" "d1 \<le> 255" by auto
    have u: "unat (of_nat d1 :: u32) = d1" using d1 by (simp add: unat_of_nat)
    have "2 * (d1 + 1) * t \<le> 65535 * t" using d1 by simp
    with PA have c1: "c \<le> 65535 * t" by linarith
    have r: "c div (2 * (d1 + 1)) \<le> t" using PA by (intro rate_le) (simp add: mult.assoc)
    show ?thesis
      using False d1 u c1 r sA
      by (simp add: nat_form Let_def c_def[symmetric] t_def[symmetric])
  next
    case True
    show ?thesis
    proof (cases "15 < d0")
      case True
      have "\<forall>d'<d0. \<not> c \<le> (2 ^ (d' + 1) - 1) * t"
        using sB unfolding smallest_def by blast
      with True have "\<not> c \<le> (2 ^ (15 + 1) - 1) * t" by blast
      then have "65535 * t < c" by simp
      with True \<open>255 < d1 \<or> d1 = 0\<close> show ?thesis
        by (simp add: nat_form c_def t_def)
    next
      case False
      then have d0: "d0 \<le> 15" by simp
      have u: "unat (of_nat d0 :: u32) = d0" using d0 by (simp add: unat_of_nat)
      have "(2::nat) ^ (d0 + 1) \<le> 2 ^ 16" using d0 by (intro power_increasing) auto
      then have "(2::nat) ^ (d0 + 1) - 1 \<le> 65535" by simp
      then have "(2 ^ (d0 + 1) - 1) * t \<le> 65535 * t" by (rule mult_le_mono1)
      with PB have c1: "c \<le> 65535 * t" by linarith
      have "c \<le> 2 ^ (d0 + 1) * t"
      proof -
        have "(2 ^ (d0 + 1) - 1) * t \<le> 2 ^ (d0 + 1) * t" by simp
        with PB show ?thesis by linarith
      qed
      then have r: "scheme_B_rate c d0 \<le> t" unfolding scheme_B_rate_def by (intro rate_le)
      have ex: "\<exists>d1. smallest (\<lambda>d. c \<le> 2 * (d + 1) * t) d1 \<and> (d1 = 0 \<or> 255 < d1)"
        using sA True by blast
      show ?thesis
        using True False d0 u c1 r sB ex
        by (simp add: nat_form Let_def c_def[symmetric] t_def[symmetric])
    qed
  qed
qed

lemmas clk_eval = mchp_corespi_calculate_clkgen_def DIV_ROUND_UP_def fls_def
  CLK_GEN_MODE1_MAX_def CLK_GEN_MODE0_MAX_def CLK_GEN_MIN_def Let_def bit_length.simps

lemma slowest_above:
  assumes "t < scheme_B_rate c 15"
  shows "65535 * t < (c::nat)"
proof -
  have "t < c div 65536" using assms by (simp add: scheme_B_rate_def)
  then have "Suc t \<le> c div 65536" by simp
  then have "Suc t * 65536 \<le> c" by (simp add: less_eq_div_iff_mult_less_eq)
  then show ?thesis by simp
qed

text \<open>
  Claim C1, the part the driver keeps by design. For a target rate \<open>t\<close> with
  \<open>0 < t \<le> c\<close>, where the source clock rate \<open>c\<close> is below \<open>2^32\<close> Hz, the computation
  either refuses with \<open>EINVAL\<close> or succeeds and changes only \<open>clk_mode\<close> and \<open>clk_gen\<close>.
  A divider it selects is one of mode 1 in 1..255, never the divider 0 of mode 1, or
  one of mode 0 in 0..15, and a divider of mode 0 it selects has a rate
  \<open>c / 2^(d + 1)\<close> of at most \<open>t\<close>. It refuses whenever even the slowest rate, that of
  the mode 0 divider 15, is above \<open>t\<close>, so that no divider of either mode meets the
  bound, and it succeeds whenever \<open>c \<le> 65535 * t\<close>. Mode 1 is selected whenever
  \<open>2 * t < c \<le> 511 * t\<close>. For \<open>t = c\<close>, where the mode 1 divider 0 would do, the
  guard on that divider makes it mode 0 with the divider 0. The statement is silent on
  the rate of a mode 1 divider and on which of the dividers that meet the bound is
  selected.
\<close>

theorem calculate_clkgen_design:
  assumes "0 < target_hz" "target_hz \<le> clk spi" "clk spi < 2 ^ 32"
  shows "(case mchp_corespi_calculate_clkgen target_hz spi of
      Inl e \<Rightarrow> e = EINVAL
    | Inr spi' \<Rightarrow>
        spi' = spi\<lparr>clk_mode := clk_mode spi', clk_gen := clk_gen spi'\<rparr> \<and>
        (clk_mode spi' = 1 \<and> 1 \<le> unat (clk_gen spi') \<and> unat (clk_gen spi') \<le> 255 \<or>
         clk_mode spi' = 0 \<and> unat (clk_gen spi') \<le> 15 \<and>
         scheme_B_rate (unat (clk spi)) (unat (clk_gen spi')) \<le> unat target_hz)) \<and>
     (unat target_hz < scheme_B_rate (unat (clk spi)) 15 \<longrightarrow>
        mchp_corespi_calculate_clkgen target_hz spi = Inl EINVAL) \<and>
     (unat (clk spi) \<le> 65535 * unat target_hz \<longrightarrow>
        (\<exists>spi'. mchp_corespi_calculate_clkgen target_hz spi = Inr spi')) \<and>
     (2 * unat target_hz < unat (clk spi) \<and> unat (clk spi) \<le> 511 * unat target_hz \<longrightarrow>
        (\<exists>spi'. mchp_corespi_calculate_clkgen target_hz spi = Inr spi' \<and> clk_mode spi' = 1)) \<and>
     (target_hz = clk spi \<longrightarrow>
        mchp_corespi_calculate_clkgen target_hz spi = Inr (spi\<lparr>clk_mode := 0, clk_gen := 0\<rparr>))"
proof -
  define c where "c = unat (clk spi)"
  define t where "t = unat target_hz"
  define res where "res = mchp_corespi_calculate_clkgen target_hz spi"
  have t0: "0 < t" using assms(1) by (simp add: t_def word_less_nat_alt)
  have tc: "t \<le> c" using assms(2) by (simp add: t_def c_def word_le_nat_alt)
  note ex = calculate_clkgen_exact[OF assms, folded res_def, unfolded Let_def, folded c_def t_def]
  have A: "(case res of
      Inl e \<Rightarrow> e = EINVAL
    | Inr spi' \<Rightarrow>
        spi' = spi\<lparr>clk_mode := clk_mode spi', clk_gen := clk_gen spi'\<rparr> \<and>
        (clk_mode spi' = 1 \<and> 1 \<le> unat (clk_gen spi') \<and> unat (clk_gen spi') \<le> 255 \<or>
         clk_mode spi' = 0 \<and> unat (clk_gen spi') \<le> 15 \<and>
         scheme_B_rate c (unat (clk_gen spi')) \<le> t))"
    using ex by (cases res) (auto split: if_splits)
  have B: "t < scheme_B_rate c 15 \<longrightarrow> res = Inl EINVAL"
  proof
    assume "t < scheme_B_rate c 15"
    then have "65535 * t < c" by (rule slowest_above)
    then show "res = Inl EINVAL"
      unfolding res_def t_def c_def by (intro clkgen_fails assms)
  qed
  have C: "c \<le> 65535 * t \<longrightarrow> (\<exists>spi'. res = Inr spi')"
    using ex by (cases res) auto
  have D: "2 * t < c \<and> c \<le> 511 * t \<longrightarrow> (\<exists>spi'. res = Inr spi' \<and> clk_mode spi' = 1)"
  proof
    assume h: "2 * t < c \<and> c \<le> 511 * t"
    show "\<exists>spi'. res = Inr spi' \<and> clk_mode spi' = 1"
    proof (cases res)
      case (Inl e)
      with ex have "65535 * t < c" by simp
      with h show ?thesis by simp
    next
      case (Inr spi')
      show ?thesis
      proof (cases "clk_mode spi' = 1")
        case True with Inr show ?thesis by simp
      next
        case False
        with ex Inr obtain d1 where d1: "smallest (\<lambda>d. c \<le> 2 * (d + 1) * t) d1" "d1 = 0 \<or> 255 < d1"
          by auto
        from d1(1) have P: "c \<le> 2 * (d1 + 1) * t" and m: "\<forall>d'<d1. \<not> c \<le> 2 * (d' + 1) * t"
          by (simp_all add: smallest_def)
        from d1(2) show ?thesis
        proof
          assume "d1 = 0" with P h show ?thesis by simp
        next
          assume "255 < d1"
          with m have "\<not> c \<le> 2 * (255 + 1) * t" by blast
          with h show ?thesis by simp
        qed
      qed
    qed
  qed
  have E: "target_hz = clk spi \<longrightarrow> res = Inr (spi\<lparr>clk_mode := 0, clk_gen := 0\<rparr>)"
  proof
    assume "target_hz = clk spi"
    then have e: "t = c" by (simp add: t_def c_def)
    show "res = Inr (spi\<lparr>clk_mode := 0, clk_gen := 0\<rparr>)"
    proof (cases res)
      case (Inl x)
      with ex have "65535 * t < c" by simp
      with e show ?thesis by simp
    next
      case (Inr spi')
      have raw: "c \<le> 65535 * t \<and>
         spi' = spi\<lparr>clk_mode := clk_mode spi', clk_gen := clk_gen spi'\<rparr> \<and>
         (if clk_mode spi' = 1 then
            1 \<le> unat (clk_gen spi') \<and> unat (clk_gen spi') \<le> 255 \<and>
            smallest (\<lambda>d. c \<le> 2 * (d + 1) * t) (unat (clk_gen spi')) \<and>
            c div (2 * (unat (clk_gen spi') + 1)) \<le> t
          else
            clk_mode spi' = 0 \<and> unat (clk_gen spi') \<le> 15 \<and>
            smallest (\<lambda>d. c \<le> (2 ^ (d + 1) - 1) * t) (unat (clk_gen spi')) \<and>
            scheme_B_rate c (unat (clk_gen spi')) \<le> t \<and>
            (\<exists>d1. smallest (\<lambda>d. c \<le> 2 * (d + 1) * t) d1 \<and> (d1 = 0 \<or> 255 < d1)))"
        using ex[unfolded Inr sum.case] .
      have m0: "clk_mode spi' \<noteq> 1"
      proof
        assume m1: "clk_mode spi' = 1"
        from raw have "1 \<le> unat (clk_gen spi')"
          "smallest (\<lambda>d. c \<le> 2 * (d + 1) * t) (unat (clk_gen spi'))"
          by (simp_all only: m1 if_True)
        then have "\<not> c \<le> 2 * (0 + 1) * t" unfolding smallest_def by (metis less_eq_Suc_le One_nat_def)
        with e show False by simp
      qed
      from raw have f1: "spi' = spi\<lparr>clk_mode := clk_mode spi', clk_gen := clk_gen spi'\<rparr>"
        by (rule conjunct1[OF conjunct2])
      from raw m0 have f: "clk_mode spi' = 0"
        "smallest (\<lambda>d. c \<le> (2 ^ (d + 1) - 1) * t) (unat (clk_gen spi'))"
        by (simp_all only: if_False)
      have "unat (clk_gen spi') = 0"
      proof (rule ccontr)
        assume "unat (clk_gen spi') \<noteq> 0"
        then have "0 < unat (clk_gen spi')" by simp
        with f(2) have "\<not> c \<le> (2 ^ (0 + 1) - 1) * t" unfolding smallest_def by blast
        with e show False by simp
      qed
      then have cg: "clk_gen spi' = 0" by (simp add: unat_eq_0)
      have "spi\<lparr>clk_mode := clk_mode spi', clk_gen := clk_gen spi'\<rparr> = spi\<lparr>clk_mode := 0, clk_gen := 0\<rparr>"
        by (simp only: f(1) cg)
      with f1 have "spi' = spi\<lparr>clk_mode := 0, clk_gen := 0\<rparr>" by (rule trans)
      with Inr show ?thesis by simp
    qed
  qed
  show ?thesis
    using A B C D E unfolding res_def c_def t_def by (intro conjI)
qed

theorem calculate_clkgen_design_witness:
  "(0::ulong) < 1000000 \<and> 1000000 \<le> clk spi_20MHz \<and> clk spi_20MHz < 2 ^ 32 \<and>
   unat (clk spi_20MHz) \<le> 65535 * unat (1000000 :: ulong) \<and>
   2 * unat (1000000 :: ulong) < unat (clk spi_20MHz) \<and>
   unat (clk spi_20MHz) \<le> 511 * unat (1000000 :: ulong) \<and>
   mchp_corespi_calculate_clkgen 1000000 spi_20MHz = Inr (spi_20MHz\<lparr>clk_mode := 1, clk_gen := 9\<rparr>) \<and>
   (0::ulong) < 100 \<and> 100 \<le> clk spi_20MHz \<and>
   unat (100 :: ulong) < scheme_B_rate (unat (clk spi_20MHz)) 15 \<and>
   mchp_corespi_calculate_clkgen 100 spi_20MHz = Inl EINVAL \<and>
   (0::ulong) < 20000000 \<and> 20000000 \<le> clk spi_20MHz \<and>
   mchp_corespi_calculate_clkgen 20000000 spi_20MHz = Inr (spi_20MHz\<lparr>clk_mode := 0, clk_gen := 0\<rparr>)"
  using calculate_clkgen_design [of 1000000 spi_20MHz]
    calculate_clkgen_design [of 100 spi_20MHz]
    calculate_clkgen_design [of 20000000 spi_20MHz]
  by (simp add: spi_20MHz_def clk_eval scheme_B_rate_def)

text \<open>
  Claim C1 as the specification words it fails at 20 MHz. By design: a target of
  100 Hz is refused, and for a target of 20 MHz mode 0 is selected although the mode 1
  divider 0 meets the bound. Against the ratios of the comment in the source: for a
  target of 1 MHz the divider 9 of mode 1 is selected, whose rate under the ratio
  \<open>2 * d + 1\<close> is above the target, and for a target of 10 MHz the mode 0 divider 1 is
  selected although the mode 0 divider 0 meets the bound.
\<close>

theorem calculate_clkgen_counterexample:
  "(case mchp_corespi_calculate_clkgen 1000000 spi_20MHz of
      Inl e \<Rightarrow> False | Inr spi' \<Rightarrow> clk_mode spi' = 1 \<and> clk_gen spi' = 9) \<and>
   \<not> scheme_A_rate 20000000 9 \<le> 1000000 \<and>
   mchp_corespi_calculate_clkgen 100 spi_20MHz = Inl EINVAL \<and>
   (case mchp_corespi_calculate_clkgen 20000000 spi_20MHz of
      Inl e \<Rightarrow> False | Inr spi' \<Rightarrow> clk_mode spi' = 0 \<and> clk_gen spi' = 0) \<and>
   scheme_A_rate 20000000 0 \<le> 20000000 \<and>
   (case mchp_corespi_calculate_clkgen 10000000 spi_20MHz of
      Inl e \<Rightarrow> False | Inr spi' \<Rightarrow> clk_mode spi' = 0 \<and> clk_gen spi' = 1) \<and>
   scheme_B_rate 20000000 0 \<le> 10000000"
  by (simp add: spi_20MHz_def clk_eval scheme_A_rate_def scheme_B_rate_def)

section \<open>Refusing an unattainable clock\<close>

text \<open>
  Claim C4. A nonzero target rate below \<open>c / 2^16\<close>, the lowest rate of mode 0 and
  below the lowest rate \<open>c / 511\<close> of mode 1, makes \<open>mchp_corespi_transfer_one\<close> return
  \<open>-EINVAL\<close>. No register is read or written and no field of the driver state
  changes: the state differs from the one before the call by the logged message only.
\<close>

theorem transfer_one_clock_unattainable:
  assumes "0 < speed_hz xfer" "clk spi < 2 ^ 32"
    and "unat (speed_hz xfer) * 2 ^ 16 < unat (clk spi)"
  shows "mchp_corespi_transfer_one io xfer spi =
           (Inl EINVAL, spi\<lparr>trace := trace spi @ [Dev_err (CLK_GEN_FAILED (speed_hz xfer))]\<rparr>)"
proof -
  have u: "unat (ucast (speed_hz xfer) :: ulong) = unat (speed_hz xfer)"
  proof -
    have "unat (speed_hz xfer) < 2 ^ 32" using unsigned_less[of "speed_hz xfer"] by simp
    then have "unat (speed_hz xfer) < 2 ^ 64" by simp
    then have "take_bit 64 (unat (speed_hz xfer)) = unat (speed_hz xfer)"
      by (rule take_bit_nat_eq_self)
    then show ?thesis by (simp add: unsigned_ucast_eq)
  qed
  have pos: "0 < (ucast (speed_hz xfer) :: ulong)"
    using assms(1) by (simp add: word_less_nat_alt u)
  have "65535 * unat (ucast (speed_hz xfer) :: ulong) < unat (clk spi)"
    using assms(3) by (simp add: u)
  then have "mchp_corespi_calculate_clkgen (ucast (speed_hz xfer)) spi = Inl EINVAL"
    by (rule clkgen_fails[OF pos assms(2)])
  then show ?thesis
    by (simp add: mchp_corespi_transfer_one_def dev_err_def)
qed

theorem transfer_one_clock_unattainable_witness:
  "0 < speed_hz xfer_slow \<and> clk spi_20MHz < 2 ^ 32 \<and>
   unat (speed_hz xfer_slow) * 2 ^ 16 < unat (clk spi_20MHz) \<and>
   mchp_corespi_transfer_one corespi xfer_slow spi_20MHz =
     (Inl EINVAL, spi_20MHz\<lparr>trace := [Dev_err (CLK_GEN_FAILED 100)]\<rparr>)"
  using transfer_one_clock_unattainable [of xfer_slow spi_20MHz corespi]
  by (simp add: xfer_slow_def spi_20MHz_def)

section \<open>The FIFO loops\<close>

subsection \<open>Invariant rules\<close>

text \<open>
  A property that holds when a loop is entered and is kept by an iteration and by the
  status read that ends the loop holds of the final count and state.
\<close>

lemma read_fifo_loop_invariant:
  assumes run: "read_fifo_loop io fifo_max i spi = (j, spi')"
    and init: "P i spi"
    and iter: "\<And>k s st s1 v s2. \<lbrakk>P k s; k < fifo_max; mchp_corespi_read io REG_STATUS s = (st, s1);
                 st AND STATUS_RXFIFO_EMPTY = 0; mchp_corespi_read io REG_RX_DATA s1 = (v, s2)\<rbrakk>
               \<Longrightarrow> P (k + 1) (store_rx (ucast v) s2)"
    and stop: "\<And>k s st s1. \<lbrakk>P k s; k < fifo_max; mchp_corespi_read io REG_STATUS s = (st, s1);
                 st AND STATUS_RXFIFO_EMPTY \<noteq> 0\<rbrakk> \<Longrightarrow> P k s1"
  shows "P j spi'"
  using assms
proof (induction io fifo_max i spi rule: read_fifo_loop.induct)
  case (1 io fifo_max i spi)
  show ?case
  proof (cases "i < fifo_max")
    case False
    with "1.prems" show ?thesis by (simp add: read_fifo_loop.simps)
  next
    case True
    obtain st s1 where r1: "mchp_corespi_read io REG_STATUS spi = (st, s1)" by fastforce
    show ?thesis
    proof (cases "st AND STATUS_RXFIFO_EMPTY = 0")
      case False
      with "1.prems"(1) True r1 have "j = i" "spi' = s1"
        by (simp_all add: read_fifo_loop.simps[of io fifo_max i spi])
      with "1.prems"(4)[OF "1.prems"(2) True r1 False] show ?thesis by simp
    next
      case empty: True
      obtain v s2 where r2: "mchp_corespi_read io REG_RX_DATA s1 = (v, s2)" by fastforce
      from "1.prems"(1) True r1 empty r2
      have rec: "read_fifo_loop io fifo_max (i + 1) (store_rx (ucast v) s2) = (j, spi')"
        by (simp add: read_fifo_loop.simps[of io fifo_max i spi])
      show ?thesis
        by (rule "1.IH"[OF True r1[symmetric] empty r2[symmetric] rec
              "1.prems"(3)[OF "1.prems"(2) True r1 empty r2] "1.prems"(3,4)])
    qed
  qed
qed

lemma write_fifo_loop_invariant:
  assumes run: "write_fifo_loop io fifo_max i spi = (j, spi')"
    and init: "P i spi"
    and iter: "\<And>k s st s1 byte s2. \<lbrakk>P k s; k < fifo_max; mchp_corespi_read io REG_STATUS s = (st, s1);
                 st AND STATUS_TXFIFO_FULL = 0; next_tx_byte s1 = (byte, s2)\<rbrakk>
               \<Longrightarrow> P (k + 1) (mchp_corespi_write io REG_TX_DATA (ucast byte) s2)"
    and stop: "\<And>k s st s1. \<lbrakk>P k s; k < fifo_max; mchp_corespi_read io REG_STATUS s = (st, s1);
                 st AND STATUS_TXFIFO_FULL \<noteq> 0\<rbrakk> \<Longrightarrow> P k s1"
  shows "P j spi'"
  using assms
proof (induction io fifo_max i spi rule: write_fifo_loop.induct)
  case (1 io fifo_max i spi)
  show ?case
  proof (cases "i < fifo_max")
    case False
    with "1.prems" show ?thesis by (simp add: write_fifo_loop.simps)
  next
    case True
    obtain st s1 where r1: "mchp_corespi_read io REG_STATUS spi = (st, s1)" by fastforce
    show ?thesis
    proof (cases "st AND STATUS_TXFIFO_FULL = 0")
      case False
      with "1.prems"(1) True r1 have "j = i" "spi' = s1"
        by (simp_all add: write_fifo_loop.simps[of io fifo_max i spi])
      with "1.prems"(4)[OF "1.prems"(2) True r1 False] show ?thesis by simp
    next
      case room: True
      obtain byte s2 where r2: "next_tx_byte s1 = (byte, s2)" by fastforce
      from "1.prems"(1) True r1 room r2
      have rec: "write_fifo_loop io fifo_max (i + 1)
                   (mchp_corespi_write io REG_TX_DATA (ucast byte) s2) = (j, spi')"
        by (simp add: write_fifo_loop.simps[of io fifo_max i spi])
      show ?thesis
        by (rule "1.IH"[OF True r1[symmetric] room r2[symmetric] rec
              "1.prems"(3)[OF "1.prems"(2) True r1 room r2] "1.prems"(3,4)])
    qed
  qed
qed

subsection \<open>Events\<close>

lemma tx_writes_simps [simp]:
  "tx_writes [] = []"
  "tx_writes (xs @ ys) = tx_writes xs @ tx_writes ys"
  "tx_writes (Readl r v # xs) = tx_writes xs"
  "tx_writes (Writel r v # xs) = (if r = REG_TX_DATA then v # tx_writes xs else tx_writes xs)"
  "tx_writes (Dev_err m # xs) = tx_writes xs"
  "tx_writes (Finalize # xs) = tx_writes xs"
  by (simp_all add: tx_writes_def)

lemma rx_reads_simps [simp]:
  "rx_reads [] = []"
  "rx_reads (xs @ ys) = rx_reads xs @ rx_reads ys"
  "rx_reads (Readl r v # xs) = (if r = REG_RX_DATA then v # rx_reads xs else rx_reads xs)"
  "rx_reads (Writel r v # xs) = rx_reads xs"
  "rx_reads (Dev_err m # xs) = rx_reads xs"
  "rx_reads (Finalize # xs) = rx_reads xs"
  by (simp_all add: rx_reads_def)

lemma finalized_simps [simp]:
  "finalized [] = 0"
  "finalized (xs @ ys) = finalized xs + finalized ys"
  "finalized (Readl r v # xs) = finalized xs"
  "finalized (Writel r v # xs) = finalized xs"
  "finalized (Dev_err m # xs) = finalized xs"
  "finalized (Finalize # xs) = Suc (finalized xs)"
  by (simp_all add: finalized_def)

lemma since_append [simp]: "trace spi' = trace spi @ evs \<Longrightarrow> since spi spi' = evs"
  by (simp add: since_def)

lemma reg_neq [simp]:
  "REG_STATUS \<noteq> REG_RX_DATA" "REG_STATUS \<noteq> REG_TX_DATA" "REG_RX_DATA \<noteq> REG_TX_DATA"
  "REG_RX_DATA \<noteq> REG_STATUS" "REG_TX_DATA \<noteq> REG_STATUS" "REG_TX_DATA \<noteq> REG_RX_DATA"
  by (simp_all add: reg_consts)

subsection \<open>The drain loop\<close>

lemma read_fifo_loop_fields:
  assumes "read_fifo_loop io fifo_max i spi = (j, spi')"
  shows "i \<le> j \<and> (j \<le> fifo_max \<or> j = i) \<and>
         clk spi' = clk spi \<and> tx_buf spi' = tx_buf spi \<and> clk_gen spi' = clk_gen spi \<and>
         clk_mode spi' = clk_mode spi \<and> irq spi' = irq spi \<and> tx_len spi' = tx_len spi \<and>
         rx_len spi' = rx_len spi \<and> pending spi' = pending spi"
  by (rule read_fifo_loop_invariant[OF assms])
     (auto simp: mchp_corespi_read_def store_rx_def split: prod.splits option.splits)

lemma read_fifo_loop_trace:
  assumes "read_fifo_loop io fifo_max i spi = (j, spi')"
  shows "\<exists>evs. trace spi' = trace spi @ evs \<and> tx_writes evs = [] \<and> finalized evs = 0 \<and>
           int (length (rx_reads evs)) = j - i \<and>
           (\<forall>e\<in>set evs. \<exists>v. e = Readl REG_STATUS v \<or> e = Readl REG_RX_DATA v)"
  by (rule read_fifo_loop_invariant[OF assms])
     (auto simp: mchp_corespi_read_def store_rx_def split: prod.splits option.splits)


lemma read_fifo_loop_discard:
  assumes "read_fifo_loop io fifo_max i spi = (j, spi')" and "rx_buf spi = None"
  shows "rx_buf spi' = None \<and> ram spi' = ram spi"
proof -
  have "rx_buf spi' = rx_buf spi \<and> ram spi' = ram spi \<and> rx_buf spi' = None"
    by (rule read_fifo_loop_invariant[OF assms(1)])
       (auto simp: assms(2) mchp_corespi_read_def store_rx_def split: prod.splits option.splits)
  then show ?thesis using assms(2) by simp
qed

lemma read_fifo_loop_store:
  assumes "read_fifo_loop io fifo_max i spi = (j, spi')" and "rx_buf spi = Some p"
  shows "rx_buf spi' = Some (p + length (rx_reads (since spi spi'))) \<and>
         map (ram spi') [p..<p + length (rx_reads (since spi spi'))]
           = map ucast (rx_reads (since spi spi')) \<and>
         (\<forall>a. a < p \<or> p + length (rx_reads (since spi spi')) \<le> a \<longrightarrow> ram spi' a = ram spi a)"
proof -
  have "\<exists>evs. trace spi' = trace spi @ evs \<and>
          rx_buf spi' = Some (p + length (rx_reads evs)) \<and>
          map (ram spi') [p..<p + length (rx_reads evs)] = map ucast (rx_reads evs) \<and>
          (\<forall>a. a < p \<or> p + length (rx_reads evs) \<le> a \<longrightarrow> ram spi' a = ram spi a)"
    by (rule read_fifo_loop_invariant[OF assms(1)])
       (auto simp: assms(2) mchp_corespi_read_def store_rx_def split: prod.splits option.splits)
  then show ?thesis by auto
qed

subsection \<open>The fill loop\<close>

lemma write_fifo_loop_fields:
  assumes "write_fifo_loop io fifo_max i spi = (j, spi')"
  shows "i \<le> j \<and> (j \<le> fifo_max \<or> j = i) \<and>
         clk spi' = clk spi \<and> rx_buf spi' = rx_buf spi \<and> ram spi' = ram spi \<and>
         clk_gen spi' = clk_gen spi \<and>
         clk_mode spi' = clk_mode spi \<and> irq spi' = irq spi \<and> tx_len spi' = tx_len spi \<and>
         rx_len spi' = rx_len spi \<and> pending spi' = pending spi"
  by (rule write_fifo_loop_invariant[OF assms])
     (auto simp: mchp_corespi_read_def mchp_corespi_write_def next_tx_byte_def
           split: prod.splits option.splits)

lemma write_fifo_loop_trace:
  assumes "write_fifo_loop io fifo_max i spi = (j, spi')"
  shows "\<exists>evs. trace spi' = trace spi @ evs \<and> rx_reads evs = [] \<and> finalized evs = 0 \<and>
           int (length (tx_writes evs)) = j - i \<and>
           (\<forall>e\<in>set evs. \<exists>v. e = Readl REG_STATUS v \<or> e = Writel REG_TX_DATA v)"
  by (rule write_fifo_loop_invariant[OF assms])
     (auto simp: mchp_corespi_read_def mchp_corespi_write_def next_tx_byte_def
           split: prod.splits option.splits)

lemma write_fifo_loop_filler:
  assumes "write_fifo_loop io fifo_max i spi = (j, spi')" and "tx_buf spi = None"
  shows "tx_buf spi' = None \<and>
         tx_writes (since spi spi') = replicate (length (tx_writes (since spi spi'))) 0xaa"
proof -
  have "\<exists>evs. trace spi' = trace spi @ evs \<and> tx_buf spi' = None \<and>
          (\<forall>v\<in>set (tx_writes evs). v = 0xaa)"
    by (rule write_fifo_loop_invariant[OF assms(1)])
       (auto simp: assms(2) mchp_corespi_read_def mchp_corespi_write_def next_tx_byte_def
             split: prod.splits option.splits)
  then obtain evs where evs: "trace spi' = trace spi @ evs" "tx_buf spi' = None"
      "\<forall>v\<in>set (tx_writes evs). v = 0xaa" by blast
  from evs(3) have "replicate (length (tx_writes evs)) 0xaa = tx_writes evs"
    by (rule replicate_length_same)
  with evs show ?thesis by simp
qed

lemma write_fifo_loop_source:
  assumes "write_fifo_loop io fifo_max i spi = (j, spi')" and "tx_buf spi = Some p"
  shows "tx_buf spi' = Some (p + length (tx_writes (since spi spi'))) \<and>
         tx_writes (since spi spi')
           = map (\<lambda>a. ucast (ram spi a)) [p..<p + length (tx_writes (since spi spi'))]"
proof -
  have "\<exists>evs. trace spi' = trace spi @ evs \<and> ram spi' = ram spi \<and>
          tx_buf spi' = Some (p + length (tx_writes evs)) \<and>
          tx_writes evs = map (\<lambda>a. ucast (ram spi a)) [p..<p + length (tx_writes evs)]"
    by (rule write_fifo_loop_invariant[OF assms(1)])
       (auto simp: assms(2) mchp_corespi_read_def mchp_corespi_write_def next_tx_byte_def
             split: prod.splits option.splits)
  then show ?thesis by auto
qed

subsection \<open>The iterations of the loops\<close>

text \<open>
  Each loop makes its iterations one after the other and ends in one of two ways: the
  count has reached \<open>fifo_max\<close>, or a last read of STATUS shows the transmit FIFO full
  (the receive FIFO empty) before the count has reached \<open>fifo_max\<close>.
\<close>

lemma fill_accesses_simps [simp]:
  "fill_accesses [] v = []"
  "fill_accesses (st # sts) v = Readl REG_STATUS st # Writel REG_TX_DATA v # fill_accesses sts v"
  by (simp_all add: fill_accesses_def)

lemma drain_accesses_simps [simp]:
  "drain_accesses [] = []"
  "drain_accesses ((st, v) # svs) = Readl REG_STATUS st # Readl REG_RX_DATA v # drain_accesses svs"
  by (simp_all add: drain_accesses_def)

lemma fill_accesses_obs [simp]:
  "tx_writes (fill_accesses sts v) = replicate (length sts) v"
  "rx_reads (fill_accesses sts v) = []"
  "finalized (fill_accesses sts v) = 0"
  by (induction sts) simp_all

lemma drain_accesses_obs [simp]:
  "rx_reads (drain_accesses svs) = map snd svs"
  "tx_writes (drain_accesses svs) = []"
  "finalized (drain_accesses svs) = 0"
  by (induction svs) auto

lemma write_fifo_loop_filler_shape:
  assumes "write_fifo_loop io fifo_max i spi = (j, spi')" "tx_buf spi = None"
  shows "\<exists>sts stop. trace spi' = trace spi @ fill_accesses sts 0xaa @ stop \<and>
     list_all (\<lambda>st. st AND STATUS_TXFIFO_FULL = 0) sts \<and> j = i + int (length sts) \<and>
     (stop = [] \<and> \<not> j < fifo_max \<or>
      (\<exists>st. stop = [Readl REG_STATUS st] \<and> st AND STATUS_TXFIFO_FULL \<noteq> 0 \<and> j < fifo_max))"
  using assms
proof (induction io fifo_max i spi rule: write_fifo_loop.induct)
  case (1 io fifo_max i spi)
  show ?case
  proof (cases "i < fifo_max")
    case False
    with "1.prems"(1) have "j = i" "spi' = spi" by (simp_all add: write_fifo_loop.simps)
    with False show ?thesis
      by (intro exI[of _ "[]"]) simp
  next
    case True
    obtain st s1 where r1: "mchp_corespi_read io REG_STATUS spi = (st, s1)" by fastforce
    then have s1: "trace s1 = trace spi @ [Readl REG_STATUS st]" "tx_buf s1 = tx_buf spi"
      by (auto simp: mchp_corespi_read_def split: prod.splits)
    show ?thesis
    proof (cases "st AND STATUS_TXFIFO_FULL = 0")
      case False
      with "1.prems"(1) True r1 have "j = i" "spi' = s1"
        by (simp_all add: write_fifo_loop.simps[of io fifo_max i spi])
      with True False s1 show ?thesis
        by (intro exI[of _ "[]"] exI[of _ "[Readl REG_STATUS st]"]) simp
    next
      case room: True
      have r2: "next_tx_byte s1 = (0xaa, s1)"
        using s1(2) "1.prems"(2) by (simp add: next_tx_byte_def)
      define s2 where "s2 = mchp_corespi_write io REG_TX_DATA (ucast (0xaa :: u8)) s1"
      have s2: "trace s2 = trace spi @ [Readl REG_STATUS st, Writel REG_TX_DATA 0xaa]"
        "tx_buf s2 = None"
        using s1 "1.prems"(2) by (simp_all add: s2_def mchp_corespi_write_def)
      from "1.prems"(1) True r1 room r2
      have rec: "write_fifo_loop io fifo_max (i + 1) s2 = (j, spi')"
        by (simp add: write_fifo_loop.simps[of io fifo_max i spi] s2_def)
      from "1.IH"[OF True r1[symmetric] room r2[symmetric] rec[unfolded s2_def] s2(2)[unfolded s2_def]]
      obtain sts stop where
        ih: "trace spi' = trace s2 @ fill_accesses sts 0xaa @ stop"
          "list_all (\<lambda>st. st AND STATUS_TXFIFO_FULL = 0) sts" "j = i + 1 + int (length sts)"
          "stop = [] \<and> \<not> j < fifo_max \<or>
           (\<exists>st. stop = [Readl REG_STATUS st] \<and> st AND STATUS_TXFIFO_FULL \<noteq> 0 \<and> j < fifo_max)"
        unfolding s2_def[symmetric] by blast
      show ?thesis
        by (rule exI[of _ "st # sts"], rule exI[of _ stop]) (use ih s2 room in simp)
    qed
  qed
qed

lemma read_fifo_loop_shape:
  assumes "read_fifo_loop io fifo_max i spi = (j, spi')"
  shows "\<exists>svs stop. trace spi' = trace spi @ drain_accesses svs @ stop \<and>
     list_all (\<lambda>sv. fst sv AND STATUS_RXFIFO_EMPTY = 0) svs \<and> j = i + int (length svs) \<and>
     (stop = [] \<and> \<not> j < fifo_max \<or>
      (\<exists>st. stop = [Readl REG_STATUS st] \<and> st AND STATUS_RXFIFO_EMPTY \<noteq> 0 \<and> j < fifo_max))"
  using assms
proof (induction io fifo_max i spi rule: read_fifo_loop.induct)
  case (1 io fifo_max i spi)
  show ?case
  proof (cases "i < fifo_max")
    case False
    with "1.prems"(1) have "j = i" "spi' = spi" by (simp_all add: read_fifo_loop.simps)
    with False show ?thesis
      by (intro exI[of _ "[]"]) simp
  next
    case True
    obtain st s1 where r1: "mchp_corespi_read io REG_STATUS spi = (st, s1)" by fastforce
    then have s1: "trace s1 = trace spi @ [Readl REG_STATUS st]"
      by (auto simp: mchp_corespi_read_def split: prod.splits)
    show ?thesis
    proof (cases "st AND STATUS_RXFIFO_EMPTY = 0")
      case False
      with "1.prems"(1) True r1 have "j = i" "spi' = s1"
        by (simp_all add: read_fifo_loop.simps[of io fifo_max i spi])
      with True False s1 show ?thesis
        by (intro exI[of _ "[]"] exI[of _ "[Readl REG_STATUS st]"]) simp
    next
      case data: True
      obtain v s2 where r2: "mchp_corespi_read io REG_RX_DATA s1 = (v, s2)" by fastforce
      then have s2: "trace (store_rx (ucast v) s2) = trace spi @ [Readl REG_STATUS st, Readl REG_RX_DATA v]"
        using s1 by (auto simp: mchp_corespi_read_def store_rx_def split: prod.splits option.splits)
      from "1.prems"(1) True r1 data r2
      have rec: "read_fifo_loop io fifo_max (i + 1) (store_rx (ucast v) s2) = (j, spi')"
        by (simp add: read_fifo_loop.simps[of io fifo_max i spi])
      from "1.IH"[OF True r1[symmetric] data r2[symmetric] rec]
      obtain svs stop where
        ih: "trace spi' = trace (store_rx (ucast v) s2) @ drain_accesses svs @ stop"
          "list_all (\<lambda>sv. fst sv AND STATUS_RXFIFO_EMPTY = 0) svs" "j = i + 1 + int (length svs)"
          "stop = [] \<and> \<not> j < fifo_max \<or>
           (\<exists>st. stop = [Readl REG_STATUS st] \<and> st AND STATUS_RXFIFO_EMPTY \<noteq> 0 \<and> j < fifo_max)"
        by blast
      show ?thesis
        by (rule exI[of _ "(st, v) # svs"], rule exI[of _ stop]) (use ih s2 data in simp)
    qed
  qed
qed

subsection \<open>The accesses made\<close>

lemma replay_append:
  "replay io (xs @ ys) h = (case replay io xs h of None \<Rightarrow> None | Some h' \<Rightarrow> replay io ys h')"
proof (induction xs arbitrary: h)
  case Nil
  then show ?case by simp
next
  case (Cons e xs)
  then show ?case by (cases e) (auto split: prod.splits)
qed

lemma performedI:
  assumes "trace spi' = trace spi @ evs" "replay io evs (regs spi) = Some (regs spi')"
  shows "performed io spi spi'"
  unfolding performed_def using assms by blast

lemma performedE:
  assumes "performed io spi spi'"
  obtains evs where "trace spi' = trace spi @ evs" "replay io evs (regs spi) = Some (regs spi')"
  using assms unfolding performed_def by blast

lemma performed_since:
  assumes "performed io spi spi'"
  shows "replay io (since spi spi') (regs spi) = Some (regs spi')"
proof -
  from assms obtain evs where e: "trace spi' = trace spi @ evs"
    "replay io evs (regs spi) = Some (regs spi')" by (rule performedE)
  from e(1) have "since spi spi' = evs" by (rule since_append)
  with e(2) show ?thesis by simp
qed

lemma performed_refl [simp]: "performed io spi spi"
  by (rule performedI[where evs="[]"]) simp_all

lemma performed_trans:
  assumes "performed io a b" "performed io b c"
  shows "performed io a c"
proof -
  from assms(1) obtain xs where x: "trace b = trace a @ xs" "replay io xs (regs a) = Some (regs b)"
    by (rule performedE)
  from assms(2) obtain ys where y: "trace c = trace b @ ys" "replay io ys (regs b) = Some (regs c)"
    by (rule performedE)
  show ?thesis
    by (rule performedI[where evs="xs @ ys"]) (simp_all add: x y replay_append)
qed

lemma performed_read:
  assumes "mchp_corespi_read io reg spi = (v, s)"
  shows "performed io spi s"
  using assms
  by (intro performedI[where evs="[Readl reg v]"])
     (auto simp: mchp_corespi_read_def split: prod.splits)

lemma performed_write: "performed io spi (mchp_corespi_write io reg v spi)"
  by (intro performedI[where evs="[Writel reg v]"]) (simp_all add: mchp_corespi_write_def)

lemma performed_fields:
  assumes "performed io spi s" "regs s' = regs s" "trace s' = trace s"
  shows "performed io spi s'"
proof -
  from assms(1) obtain evs where e: "trace s = trace spi @ evs"
    "replay io evs (regs spi) = Some (regs s)" by (rule performedE)
  show ?thesis
    by (rule performedI[where evs=evs]) (simp_all add: assms(2,3) e)
qed

lemma performed_disable: "performed io spi (mchp_corespi_disable io spi)"
proof -
  obtain c s1 where r: "mchp_corespi_read io REG_CONTROL spi = (c, s1)" by fastforce
  show ?thesis
    unfolding mchp_corespi_disable_def r prod.case
    by (rule performed_trans[OF performed_read[OF r] performed_write])
qed

lemma performed_set_xfer_size: "performed io spi (mchp_corespi_set_xfer_size io n spi)"
proof -
  obtain c s2 where r: "mchp_corespi_read io REG_CONTROL (mchp_corespi_disable io spi) = (c, s2)"
    by fastforce
  have a: "performed io spi s2"
    by (rule performed_trans[OF performed_disable performed_read[OF r]])
  have w3: "performed io spi (mchp_corespi_write io r3 v3
              (mchp_corespi_write io r2 v2 (mchp_corespi_write io r1 v1 s2)))" for r1 v1 r2 v2 r3 v3
    by (rule performed_trans[OF performed_trans[OF performed_trans[OF a performed_write]
          performed_write] performed_write])
  show ?thesis
    unfolding mchp_corespi_set_xfer_size_def Let_def r prod.case by (rule w3)
qed

lemma performed_read_fifo_loop:
  assumes "read_fifo_loop io fifo_max i spi = (j, spi')"
  shows "performed io spi spi'"
proof (rule read_fifo_loop_invariant[OF assms, where P="\<lambda>k s. performed io spi s"], goal_cases)
  case 1
  show ?case by simp
next
  case (2 k s st s1 v s2)
  have "performed io spi s2"
    by (rule performed_trans[OF 2(1) performed_trans[OF performed_read[OF 2(3)] performed_read[OF 2(5)]]])
  then show ?case
    by (rule performed_fields) (simp_all add: store_rx_def split: option.splits)
next
  case (3 k s st s1)
  show ?case by (rule performed_trans[OF 3(1) performed_read[OF 3(3)]])
qed

lemma performed_write_fifo_loop:
  assumes "write_fifo_loop io fifo_max i spi = (j, spi')"
  shows "performed io spi spi'"
proof (rule write_fifo_loop_invariant[OF assms, where P="\<lambda>k s. performed io spi s"], goal_cases)
  case 1
  show ?case by simp
next
  case (2 k s st s1 byte s2)
  have "performed io spi s1"
    by (rule performed_trans[OF 2(1) performed_read[OF 2(3)]])
  then have "performed io spi s2"
    by (rule performed_fields) (use 2(5) in \<open>auto simp: next_tx_byte_def split: option.splits\<close>)
  then show ?case by (rule performed_trans[OF _ performed_write])
next
  case (3 k s st s1)
  show ?case by (rule performed_trans[OF 3(1) performed_read[OF 3(3)]])
qed

lemma performed_read_fifo: "performed io spi (mchp_corespi_read_fifo io spi)"
proof -
  obtain j s1 where run: "read_fifo_loop io (min (rx_len spi) FIFO_DEPTH) 0 spi = (j, s1)"
    by fastforce
  from performed_read_fifo_loop[OF run] show ?thesis
    by (rule performed_fields) (simp_all add: mchp_corespi_read_fifo_def run)
qed

lemma performed_write_fifo: "performed io spi (mchp_corespi_write_fifo io spi)"
proof -
  define s1 where "s1 = mchp_corespi_set_xfer_size io (min (tx_len spi) FIFO_DEPTH) spi"
  obtain j s2 where run: "write_fifo_loop io (min (tx_len spi) FIFO_DEPTH) 0 s1 = (j, s2)"
    by fastforce
  have "performed io spi s2"
    unfolding s1_def[symmetric]
    by (rule performed_trans[OF _ performed_write_fifo_loop[OF run]])
       (simp add: s1_def performed_set_xfer_size)
  then show ?thesis
    by (rule performed_fields)
       (simp_all add: mchp_corespi_write_fifo_def Let_def s1_def[symmetric] run)
qed

section \<open>Draining and filling\<close>

subsection \<open>The drain operation\<close>

lemma read_fifo_fields:
  "clk (mchp_corespi_read_fifo io spi) = clk spi \<and>
   tx_buf (mchp_corespi_read_fifo io spi) = tx_buf spi \<and>
   clk_gen (mchp_corespi_read_fifo io spi) = clk_gen spi \<and>
   clk_mode (mchp_corespi_read_fifo io spi) = clk_mode spi \<and>
   irq (mchp_corespi_read_fifo io spi) = irq spi \<and>
   tx_len (mchp_corespi_read_fifo io spi) = tx_len spi"
proof -
  obtain j s1 where run: "read_fifo_loop io (min (rx_len spi) FIFO_DEPTH) 0 spi = (j, s1)"
    by fastforce
  from read_fifo_loop_fields[OF run] show ?thesis
    by (simp add: mchp_corespi_read_fifo_def run)
qed

lemma read_fifo_counts:
  "\<exists>evs. trace (mchp_corespi_read_fifo io spi) = trace spi @ evs \<and>
     tx_writes evs = [] \<and> finalized evs = 0 \<and>
     (\<forall>e\<in>set evs. \<exists>v. e = Readl REG_STATUS v \<or> e = Readl REG_RX_DATA v) \<and>
     rx_len (mchp_corespi_read_fifo io spi) = rx_len spi - int (length (rx_reads evs)) \<and>
     pending (mchp_corespi_read_fifo io spi) = pending spi - int (length (rx_reads evs)) \<and>
     int (length (rx_reads evs)) \<le> max 0 (min (rx_len spi) FIFO_DEPTH)"
proof -
  obtain j s1 where run: "read_fifo_loop io (min (rx_len spi) FIFO_DEPTH) 0 spi = (j, s1)"
    by fastforce
  from read_fifo_loop_trace[OF run] obtain evs where
    evs: "trace s1 = trace spi @ evs" "tx_writes evs = []" "finalized evs = 0"
      "int (length (rx_reads evs)) = j - 0"
      "\<forall>e\<in>set evs. \<exists>v. e = Readl REG_STATUS v \<or> e = Readl REG_RX_DATA v" by blast
  from read_fifo_loop_fields[OF run] have
    f: "0 \<le> j" "j \<le> min (rx_len spi) FIFO_DEPTH \<or> j = 0"
       "rx_len s1 = rx_len spi" "pending s1 = pending spi" by auto
  show ?thesis
    apply (rule exI[of _ evs])
    using evs f by (auto simp: mchp_corespi_read_fifo_def run)
qed

lemma read_fifo_buffer:
  "(case rx_buf spi of
      None \<Rightarrow> rx_buf (mchp_corespi_read_fifo io spi) = None \<and>
              ram (mchp_corespi_read_fifo io spi) = ram spi
    | Some p \<Rightarrow>
        (let data = rx_reads (since spi (mchp_corespi_read_fifo io spi)) in
         rx_buf (mchp_corespi_read_fifo io spi) = Some (p + length data) \<and>
         map (ram (mchp_corespi_read_fifo io spi)) [p..<p + length data] = map ucast data \<and>
         (\<forall>a. a < p \<or> p + length data \<le> a \<longrightarrow>
               ram (mchp_corespi_read_fifo io spi) a = ram spi a)))"
proof -
  obtain j s1 where run: "read_fifo_loop io (min (rx_len spi) FIFO_DEPTH) 0 spi = (j, s1)"
    by fastforce
  have tr: "since spi (mchp_corespi_read_fifo io spi) = since spi s1"
    by (simp add: mchp_corespi_read_fifo_def run since_def)
  show ?thesis
  proof (cases "rx_buf spi")
    case None
    from read_fifo_loop_discard[OF run None] show ?thesis
      by (simp add: None mchp_corespi_read_fifo_def run)
  next
    case (Some p)
    from read_fifo_loop_store[OF run Some] show ?thesis
      unfolding tr[symmetric] by (simp add: Some mchp_corespi_read_fifo_def run Let_def)
  qed
qed

lemma disable_spec:
  "\<exists>c h. mchp_corespi_disable io spi =
     spi\<lparr>regs := h, trace := trace spi @ [Readl REG_CONTROL c, Writel REG_CONTROL (c AND NOT CONTROL_ENABLE)]\<rparr>"
  by (auto simp: mchp_corespi_disable_def mchp_corespi_read_def mchp_corespi_write_def
           split: prod.splits)

subsection \<open>The frame count\<close>

lemma ucast_high_half: "(ucast ((x :: u32) AND push_bit 16 y) :: u16) = 0"
  by (rule bit_word_eqI) (auto simp: bit_simps)

lemma framesup_zero: "(ucast ((x :: u32) AND 0xffff0000) :: u16) = 0"
  using ucast_high_half[of x "0xffff"] by simp

lemma framecnt_field:
  "drop_bit 8 (((c AND NOT (push_bit 8 (mask 16))) OR push_bit 8 (ucast w)) AND push_bit 8 (mask 16))
          = (ucast (w :: u16) :: u32)"
  by (rule bit_word_eqI) (auto simp: bit_simps dest: bit_imp_le_length)

lemma framecnt_programmed:
  "framecnt ((c AND NOT CONTROL_FRAMECNT_MASK) OR push_bit CONTROL_FRAMECNT_SHIFT (ucast (w :: u16))) = unat w"
  unfolding framecnt_def CONTROL_FRAMECNT_MASK_def GENMASK_def CONTROL_FRAMECNT_SHIFT_def
  using framecnt_field[of c w]
  by (simp add: unsigned_ucast_eq take_bit_nat_eq_self unsigned_less[of w, simplified] less_trans[OF unsigned_less[of w, simplified]])

lemma lenpart_small:
  assumes "0 \<le> n" "n \<le> 65535"
  shows "unat (ucast ((word_of_int n :: u32) AND 0xffff) :: u16) = nat n"
proof -
  have m: "(0xffff :: u32) = mask 16" by (simp add: mask_eq_exp_minus_1)
  have "(ucast ((word_of_int n :: u32) AND mask 16) :: u16) = word_of_int n"
    by (rule bit_word_eqI) (auto simp: bit_simps)
  then have e: "(ucast ((word_of_int n :: u32) AND 0xffff) :: u16) = word_of_int n"
    by (simp only: m)
  have "take_bit 16 n = n" using assms by (simp add: take_bit_int_eq_self)
  then have "unat (word_of_int n :: u16) = nat n"
    by (simp add: unsigned_of_int)
  then show ?thesis by (simp only: e)
qed

lemma set_xfer_size_spec:
  "\<exists>c0 c1 c2 h. mchp_corespi_set_xfer_size io n spi =
       spi\<lparr>regs := h, trace := trace spi @ xfer_size_events c0 c1 c2\<rparr> \<and>
     (0 \<le> n \<and> n \<le> 65535 \<longrightarrow> framecnt c2 = nat n) \<and>
     c2 AND NOT CONTROL_FRAMECNT_MASK = c1 AND NOT CONTROL_FRAMECNT_MASK"
proof -
  obtain c0 h0 where r0: "readl io (regs spi) REG_CONTROL = (c0, h0)" by fastforce
  define h1 where "h1 = writel io (c0 AND NOT CONTROL_ENABLE) h0 REG_CONTROL"
  obtain c1 h2 where r1: "readl io h1 REG_CONTROL = (c1, h2)" by fastforce
  define w where "w = (ucast ((word_of_int n :: u32) AND 0xffff) :: u16)"
  define c2 where "c2 = (c1 AND NOT CONTROL_FRAMECNT_MASK) OR push_bit CONTROL_FRAMECNT_SHIFT (ucast w)"
  have fc: "framecnt c2 = unat w" unfolding c2_def by (rule framecnt_programmed)
  have keep: "c2 AND NOT CONTROL_FRAMECNT_MASK = c1 AND NOT CONTROL_FRAMECNT_MASK"
    unfolding c2_def CONTROL_FRAMECNT_MASK_def GENMASK_def CONTROL_FRAMECNT_SHIFT_def
    by (rule bit_word_eqI) (auto simp: bit_simps dest: bit_imp_le_length)
  have eq: "mchp_corespi_set_xfer_size io n spi =
      spi\<lparr>regs := writel io (c2 OR CONTROL_ENABLE) (writel io 0 (writel io c2 h2 REG_CONTROL) REG_FRAMESUP) REG_CONTROL,
          trace := trace spi @ xfer_size_events c0 c1 c2\<rparr>"
    by (simp add: mchp_corespi_set_xfer_size_def mchp_corespi_disable_def mchp_corespi_read_def
          mchp_corespi_write_def r0 r1 h1_def[symmetric] Let_def framesup_zero
          w_def[symmetric] c2_def[symmetric] xfer_size_events_def)
  have fc': "0 \<le> n \<and> n \<le> 65535 \<longrightarrow> framecnt c2 = nat n"
    using fc lenpart_small[of n] by (simp add: w_def)
  show ?thesis
    by (rule exI[of _ c0], rule exI[of _ c1], rule exI[of _ c2], rule exI, intro conjI,
        rule eq, rule fc', rule keep)
qed

subsection \<open>The fill operation\<close>

lemma xfer_size_events_obs [simp]:
  "tx_writes (xfer_size_events c0 c1 c2) = []"
  "rx_reads (xfer_size_events c0 c1 c2) = []"
  "finalized (xfer_size_events c0 c1 c2) = 0"
  by (simp_all add: xfer_size_events_def reg_consts)

lemma write_fifo_spec:
  "\<exists>c0 c1 c2 pushes.
     trace (mchp_corespi_write_fifo io spi) = trace spi @ xfer_size_events c0 c1 c2 @ pushes \<and>
     (0 \<le> tx_len spi \<longrightarrow> framecnt c2 = nat (min (tx_len spi) FIFO_DEPTH)) \<and>
     rx_reads pushes = [] \<and> finalized pushes = 0 \<and>
     (\<forall>e\<in>set pushes. \<exists>v. e = Readl REG_STATUS v \<or> e = Writel REG_TX_DATA v) \<and>
     tx_len (mchp_corespi_write_fifo io spi) = tx_len spi - int (length (tx_writes pushes)) \<and>
     pending (mchp_corespi_write_fifo io spi) = pending spi + int (length (tx_writes pushes)) \<and>
     int (length (tx_writes pushes)) \<le> max 0 (min (tx_len spi) FIFO_DEPTH) \<and>
     (case tx_buf spi of
        None \<Rightarrow> tx_buf (mchp_corespi_write_fifo io spi) = None \<and>
                tx_writes pushes = replicate (length (tx_writes pushes)) 0xaa
      | Some p \<Rightarrow>
          tx_buf (mchp_corespi_write_fifo io spi) = Some (p + length (tx_writes pushes)) \<and>
          tx_writes pushes = map (\<lambda>a. ucast (ram spi a)) [p..<p + length (tx_writes pushes)])"
proof -
  define fm where "fm = min (tx_len spi) FIFO_DEPTH"
  obtain c0 c1 c2 h where
    xs: "mchp_corespi_set_xfer_size io fm spi =
           spi\<lparr>regs := h, trace := trace spi @ xfer_size_events c0 c1 c2\<rparr>"
    and fc: "0 \<le> fm \<and> fm \<le> 65535 \<longrightarrow> framecnt c2 = nat fm"
    using set_xfer_size_spec[of io fm spi] by blast
  define s1 where "s1 = spi\<lparr>regs := h, trace := trace spi @ xfer_size_events c0 c1 c2\<rparr>"
  obtain j s2 where run: "write_fifo_loop io fm 0 s1 = (j, s2)" by fastforce
  from write_fifo_loop_trace[OF run] obtain pushes where
    ev: "trace s2 = trace s1 @ pushes" "rx_reads pushes = []" "finalized pushes = 0"
        "int (length (tx_writes pushes)) = j - 0"
        "\<forall>e\<in>set pushes. \<exists>v. e = Readl REG_STATUS v \<or> e = Writel REG_TX_DATA v"
    by blast
  from write_fifo_loop_fields[OF run] have
    f: "0 \<le> j" "j \<le> fm \<or> j = 0" "tx_len s2 = tx_len spi" "pending s2 = pending spi"
    by (auto simp: s1_def)
  have wf: "mchp_corespi_write_fifo io spi = s2\<lparr>tx_len := tx_len s2 - j, pending := pending s2 + j\<rparr>"
    by (simp add: mchp_corespi_write_fifo_def Let_def fm_def[symmetric] xs s1_def[symmetric] run)
  have since1: "since s1 s2 = pushes" using ev(1) by simp
  have buf: "(case tx_buf spi of
        None \<Rightarrow> tx_buf s2 = None \<and> tx_writes pushes = replicate (length (tx_writes pushes)) 0xaa
      | Some p \<Rightarrow> tx_buf s2 = Some (p + length (tx_writes pushes)) \<and>
          tx_writes pushes = map (\<lambda>a. ucast (ram spi a)) [p..<p + length (tx_writes pushes)])"
  proof (cases "tx_buf spi")
    case None
    then have "tx_buf s1 = None" by (simp add: s1_def)
    from write_fifo_loop_filler[OF run this] show ?thesis by (simp add: None since1)
  next
    case (Some p)
    then have "tx_buf s1 = Some p" by (simp add: s1_def)
    have "ram s1 = ram spi" by (simp add: s1_def)
    with write_fifo_loop_source[OF run \<open>tx_buf s1 = Some p\<close>] show ?thesis
      by (simp add: Some since1)
  qed
  have fc': "0 \<le> tx_len spi \<longrightarrow> framecnt c2 = nat (min (tx_len spi) FIFO_DEPTH)"
    using fc by (auto simp: fm_def FIFO_DEPTH_def)
  have tr: "trace (mchp_corespi_write_fifo io spi) = trace spi @ xfer_size_events c0 c1 c2 @ pushes"
    by (simp add: wf ev(1) s1_def)
  have cnt: "int (length (tx_writes pushes)) \<le> max 0 (min (tx_len spi) FIFO_DEPTH)"
    using ev(4) f(1,2) by (auto simp: fm_def)
  have tl: "tx_len (mchp_corespi_write_fifo io spi) = tx_len spi - int (length (tx_writes pushes))"
    and pd: "pending (mchp_corespi_write_fifo io spi) = pending spi + int (length (tx_writes pushes))"
    using ev(4) f(3,4) by (simp_all add: wf)
  have buf': "(case tx_buf spi of
        None \<Rightarrow> tx_buf (mchp_corespi_write_fifo io spi) = None \<and>
                tx_writes pushes = replicate (length (tx_writes pushes)) 0xaa
      | Some p \<Rightarrow>
          tx_buf (mchp_corespi_write_fifo io spi) = Some (p + length (tx_writes pushes)) \<and>
          tx_writes pushes = map (\<lambda>a. ucast (ram spi a)) [p..<p + length (tx_writes pushes)])"
    using buf by (simp add: wf split: option.splits)
  show ?thesis
    by (rule exI[of _ c0], rule exI[of _ c1], rule exI[of _ c2], rule exI[of _ pushes])
       (intro conjI tr fc' ev(2) ev(3) ev(5) tl pd cnt buf')
qed

lemma write_fifo_fields:
  "clk (mchp_corespi_write_fifo io spi) = clk spi \<and>
   rx_buf (mchp_corespi_write_fifo io spi) = rx_buf spi \<and>
   ram (mchp_corespi_write_fifo io spi) = ram spi \<and>
   clk_gen (mchp_corespi_write_fifo io spi) = clk_gen spi \<and>
   clk_mode (mchp_corespi_write_fifo io spi) = clk_mode spi \<and>
   irq (mchp_corespi_write_fifo io spi) = irq spi \<and>
   rx_len (mchp_corespi_write_fifo io spi) = rx_len spi"
proof -
  define fm where "fm = min (tx_len spi) FIFO_DEPTH"
  obtain c0 c1 c2 h where
    xs: "mchp_corespi_set_xfer_size io fm spi =
           spi\<lparr>regs := h, trace := trace spi @ xfer_size_events c0 c1 c2\<rparr>"
    using set_xfer_size_spec[of io fm spi] by blast
  define s1 where "s1 = spi\<lparr>regs := h, trace := trace spi @ xfer_size_events c0 c1 c2\<rparr>"
  obtain j s2 where run: "write_fifo_loop io fm 0 s1 = (j, s2)" by fastforce
  from write_fifo_loop_fields[OF run] show ?thesis
    by (simp add: mchp_corespi_write_fifo_def Let_def fm_def[symmetric] xs s1_def[symmetric] run)
       (simp add: s1_def)
qed

section \<open>Absent buffers\<close>

text \<open>The definitions that evaluate the driver on the model of the controller.\<close>

lemmas run_defs =
  mchp_corespi_set_xfer_size_def mchp_corespi_write_fifo_def mchp_corespi_read_fifo_def
  mchp_corespi_disable_def mchp_corespi_read_def mchp_corespi_write_def
  next_tx_byte_def store_rx_def read_fifo_loop.simps write_fifo_loop.simps
  corespi_def hw_readl_def hw_writel_def hw_status_def FIFO_DEPTH_def Let_def
  since_def idle_hw_def spi_20MHz_def

text \<open>
  Claim C7. When the transmit buffer is absent, the fill operation programs the frame
  count and then makes its iterations, each a read of STATUS that shows the transmit
  FIFO not full followed by a write of the filler byte \<open>0xAA\<close> to TX_DATA. It stops
  after \<open>min(tx_len, 32)\<close> writes, or earlier when a read of STATUS shows the transmit
  FIFO full, and for no other reason. Every value written to TX_DATA is \<open>0xAA\<close>, the
  remaining transmit length decreases and the in-flight count increases by the number
  of values written, and nothing else of the driver state changes. The events are the
  accesses made: the register block ends as they leave it.
\<close>

theorem write_fifo_filler:
  assumes "tx_buf spi = None"
  shows "\<exists>c0 c1 c2 sts stop.
     (let spi' = mchp_corespi_write_fifo io spi; pushed = tx_writes (since spi spi') in
        since spi spi' = xfer_size_events c0 c1 c2 @ fill_accesses sts 0xaa @ stop \<and>
        list_all (\<lambda>st. st AND STATUS_TXFIFO_FULL = 0) sts \<and>
        (stop = [] \<and> int (length sts) = max 0 (min (tx_len spi) FIFO_DEPTH) \<or>
         (\<exists>st. stop = [Readl REG_STATUS st] \<and> st AND STATUS_TXFIFO_FULL \<noteq> 0 \<and>
               int (length sts) < min (tx_len spi) FIFO_DEPTH)) \<and>
        pushed = replicate (length sts) 0xaa \<and>
        pushed = replicate (length pushed) 0xaa \<and>
        tx_len spi' = tx_len spi - int (length pushed) \<and>
        pending spi' = pending spi + int (length pushed) \<and>
        tx_buf spi' = None \<and>
        spi' = spi\<lparr>regs := regs spi', trace := trace spi',
                   tx_len := tx_len spi - int (length pushed),
                   pending := pending spi + int (length pushed)\<rparr> \<and>
        replay io (since spi spi') (regs spi) = Some (regs spi'))"
proof -
  define fm where "fm = min (tx_len spi) FIFO_DEPTH"
  obtain c0 c1 c2 h where
    xs: "mchp_corespi_set_xfer_size io fm spi =
           spi\<lparr>regs := h, trace := trace spi @ xfer_size_events c0 c1 c2\<rparr>"
    using set_xfer_size_spec[of io fm spi] by blast
  define s1 where "s1 = spi\<lparr>regs := h, trace := trace spi @ xfer_size_events c0 c1 c2\<rparr>"
  obtain j s2 where run: "write_fifo_loop io fm 0 s1 = (j, s2)" by fastforce
  have n1: "tx_buf s1 = None" by (simp add: s1_def assms)
  from write_fifo_loop_filler_shape[OF run n1] obtain sts stop where
    sh: "trace s2 = trace s1 @ fill_accesses sts 0xaa @ stop"
        "list_all (\<lambda>st. st AND STATUS_TXFIFO_FULL = 0) sts" "j = 0 + int (length sts)"
        "stop = [] \<and> \<not> j < fm \<or>
         (\<exists>st. stop = [Readl REG_STATUS st] \<and> st AND STATUS_TXFIFO_FULL \<noteq> 0 \<and> j < fm)"
    by blast
  from write_fifo_loop_fields[OF run] have
    f: "0 \<le> j" "j \<le> fm \<or> j = 0" "clk s2 = clk spi" "rx_buf s2 = rx_buf spi" "ram s2 = ram spi"
       "clk_gen s2 = clk_gen spi" "clk_mode s2 = clk_mode spi" "irq s2 = irq spi"
       "tx_len s2 = tx_len spi" "rx_len s2 = rx_len spi" "pending s2 = pending spi"
    by (auto simp: s1_def)
  from write_fifo_loop_filler[OF run n1] have n2: "tx_buf s2 = None" by simp
  define spi' where "spi' = mchp_corespi_write_fifo io spi"
  have wf: "spi' = s2\<lparr>tx_len := tx_len s2 - j, pending := pending s2 + j\<rparr>"
    by (simp add: spi'_def mchp_corespi_write_fifo_def Let_def fm_def[symmetric] xs s1_def[symmetric] run)
  have tr: "trace spi' = trace spi @ xfer_size_events c0 c1 c2 @ fill_accesses sts 0xaa @ stop"
    by (simp add: wf sh(1) s1_def)
  then have si: "since spi spi' = xfer_size_events c0 c1 c2 @ fill_accesses sts 0xaa @ stop"
    by (rule since_append)
  have st: "tx_writes stop = []" using sh(4) by auto
  have pu: "tx_writes (since spi spi') = replicate (length sts) 0xaa"
    by (simp add: si st)
  have ln: "int (length (tx_writes (since spi spi'))) = j" by (simp add: pu sh(3))
  have stop: "stop = [] \<and> int (length sts) = max 0 (min (tx_len spi) FIFO_DEPTH) \<or>
         (\<exists>st. stop = [Readl REG_STATUS st] \<and> st AND STATUS_TXFIFO_FULL \<noteq> 0 \<and>
               int (length sts) < min (tx_len spi) FIFO_DEPTH)"
    using sh(3,4) f(1,2) unfolding fm_def[symmetric] by auto
  have eq: "spi' = spi\<lparr>regs := regs spi', trace := trace spi',
                   tx_len := tx_len spi - int (length (tx_writes (since spi spi'))),
                   pending := pending spi + int (length (tx_writes (since spi spi')))\<rparr>"
    unfolding ln using f n2 assms by (intro mchp_corespi.equality) (simp_all add: wf)
  have A: "tx_writes (since spi spi') = replicate (length (tx_writes (since spi spi'))) 0xaa"
    by (simp add: pu)
  have B: "tx_len spi' = tx_len spi - int (length (tx_writes (since spi spi')))"
    "pending spi' = pending spi + int (length (tx_writes (since spi spi')))"
    "tx_buf spi' = None"
    unfolding ln using f n2 by (simp_all add: wf)
  have rp: "replay io (since spi spi') (regs spi) = Some (regs spi')"
    unfolding spi'_def by (rule performed_since[OF performed_write_fifo])
  show ?thesis
    unfolding Let_def spi'_def[symmetric]
    by (rule exI[of _ c0], rule exI[of _ c1], rule exI[of _ c2], rule exI[of _ sts],
        rule exI[of _ stop])
       (intro conjI si sh(2) stop pu A B eq rp)
qed

theorem write_fifo_filler_witness:
  "tx_buf spi_tx3 = None \<and>
   mchp_corespi_write_fifo corespi spi_tx3 =
     spi_tx3\<lparr>regs := idle_hw\<lparr>reg_file := (\<lambda>r. if r = REG_CONTROL then 0x301 else 0),
                              tx_fifo := [0xaa, 0xaa, 0xaa]\<rparr>,
             tx_len := 0, pending := 3,
             trace := xfer_size_events 0 0 0x300 @ fill_accesses [0x40, 0x40, 0x40] 0xaa\<rparr>"
  using write_fifo_filler [of spi_tx3 corespi]
  by (simp add: spi_tx3_def run_defs reg_consts bit_consts xfer_size_events_def fun_eq_iff)

text \<open>
  The register accesses of the drain loop, and its final count, depend on the register
  block and the event list only, not on the receive buffer.
\<close>

lemma read_fifo_loop_erase:
  assumes "regs s = regs t" "trace s = trace t"
  shows "fst (read_fifo_loop io fifo_max i s) = fst (read_fifo_loop io fifo_max i t) \<and>
         regs (snd (read_fifo_loop io fifo_max i s)) = regs (snd (read_fifo_loop io fifo_max i t)) \<and>
         trace (snd (read_fifo_loop io fifo_max i s)) = trace (snd (read_fifo_loop io fifo_max i t))"
  using assms
proof (induction io fifo_max i s arbitrary: t rule: read_fifo_loop.induct)
  case (1 io fifo_max i spi)
  show ?case
  proof (cases "i < fifo_max")
    case False
    with "1.prems" show ?thesis by (simp add: read_fifo_loop.simps)
  next
    case True
    obtain st s1 where r1: "mchp_corespi_read io REG_STATUS spi = (st, s1)" by fastforce
    obtain t1 where q1: "mchp_corespi_read io REG_STATUS t = (st, t1)"
      and e1: "regs s1 = regs t1" "trace s1 = trace t1"
      using r1 "1.prems" by (auto simp: mchp_corespi_read_def split: prod.splits)
    show ?thesis
    proof (cases "st AND STATUS_RXFIFO_EMPTY = 0")
      case False
      with True r1 q1 e1 show ?thesis
        by (simp add: read_fifo_loop.simps[of io fifo_max i])
    next
      case empty: True
      obtain v s2 where r2: "mchp_corespi_read io REG_RX_DATA s1 = (v, s2)" by fastforce
      obtain t2 where q2: "mchp_corespi_read io REG_RX_DATA t1 = (v, t2)"
        and e2: "regs s2 = regs t2" "trace s2 = trace t2"
        using r2 e1 by (auto simp: mchp_corespi_read_def split: prod.splits)
      have e3: "regs (store_rx (ucast v) s2) = regs (store_rx (ucast v) t2)"
               "trace (store_rx (ucast v) s2) = trace (store_rx (ucast v) t2)"
        using e2 by (auto simp: store_rx_def split: option.splits)
      from "1.IH"[OF True r1[symmetric] empty r2[symmetric] e3]
      show ?thesis
        using True r1 q1 empty r2 q2 by (simp add: read_fifo_loop.simps[of io fifo_max i])
    qed
  qed
qed

text \<open>
  With an absent receive buffer the drain operation changes the register block, the
  event list and the two counters only, and these as it does with a buffer.
\<close>

lemma read_fifo_absent_buffer:
  assumes "rx_buf spi = None"
  shows "let spi' = mchp_corespi_read_fifo io spi;
             drained = int (length (rx_reads (since spi spi'))) in
           spi' = spi\<lparr>regs := regs spi', trace := trace spi',
                      rx_len := rx_len spi - drained, pending := pending spi - drained\<rparr> \<and>
           (\<forall>p. regs (mchp_corespi_read_fifo io (spi\<lparr>rx_buf := Some p\<rparr>)) = regs spi' \<and>
                trace (mchp_corespi_read_fifo io (spi\<lparr>rx_buf := Some p\<rparr>)) = trace spi' \<and>
                rx_len (mchp_corespi_read_fifo io (spi\<lparr>rx_buf := Some p\<rparr>)) = rx_len spi' \<and>
                pending (mchp_corespi_read_fifo io (spi\<lparr>rx_buf := Some p\<rparr>)) = pending spi')"
proof -
  define spi' where "spi' = mchp_corespi_read_fifo io spi"
  from read_fifo_counts[of io spi] obtain evs where
    tr: "trace spi' = trace spi @ evs"
    and rl: "rx_len spi' = rx_len spi - int (length (rx_reads evs))"
    and pd: "pending spi' = pending spi - int (length (rx_reads evs))"
    unfolding spi'_def by blast
  have s: "since spi spi' = evs" using tr by simp
  have buf: "rx_buf spi' = None" "ram spi' = ram spi"
    using read_fifo_buffer[where io=io and spi=spi] by (simp_all add: assms spi'_def)
  have eq: "spi' = spi\<lparr>regs := regs spi', trace := trace spi',
                      rx_len := rx_len spi - int (length (rx_reads evs)),
                      pending := pending spi - int (length (rx_reads evs))\<rparr>"
    using read_fifo_fields[of io spi] buf rl pd assms
    by (intro mchp_corespi.equality) (simp_all add: spi'_def)
  have same: "regs (mchp_corespi_read_fifo io (spi\<lparr>rx_buf := Some p\<rparr>)) = regs spi' \<and>
              trace (mchp_corespi_read_fifo io (spi\<lparr>rx_buf := Some p\<rparr>)) = trace spi' \<and>
              rx_len (mchp_corespi_read_fifo io (spi\<lparr>rx_buf := Some p\<rparr>)) = rx_len spi' \<and>
              pending (mchp_corespi_read_fifo io (spi\<lparr>rx_buf := Some p\<rparr>)) = pending spi'" for p
  proof -
    define fm where "fm = min (rx_len spi) FIFO_DEPTH"
    obtain j s1 where a: "read_fifo_loop io fm 0 spi = (j, s1)" by fastforce
    obtain k t1 where b: "read_fifo_loop io fm 0 (spi\<lparr>rx_buf := Some p\<rparr>) = (k, t1)" by fastforce
    have "regs (spi\<lparr>rx_buf := Some p\<rparr>) = regs spi" "trace (spi\<lparr>rx_buf := Some p\<rparr>) = trace spi"
      by simp_all
    from read_fifo_loop_erase[OF this, of io fm 0]
    have e: "k = j" "regs t1 = regs s1" "trace t1 = trace s1" by (simp_all add: a b)
    from read_fifo_loop_fields[OF a] read_fifo_loop_fields[OF b]
    have f: "rx_len t1 = rx_len s1" "pending t1 = pending s1" by simp_all
    show ?thesis
      using e f by (simp add: spi'_def mchp_corespi_read_fifo_def fm_def[symmetric] a b)
  qed
  show ?thesis
    unfolding Let_def spi'_def[symmetric] s using eq same by simp
qed

text \<open>
  Claim C8. When the receive buffer is absent, the drain operation makes its
  iterations as it does with a buffer, each a read of STATUS that shows the receive
  FIFO not empty followed by a read of RX_DATA. It stops after \<open>min(rx_len, 32)\<close> reads
  of RX_DATA, or earlier when a read of STATUS shows the receive FIFO empty, and for no
  other reason. The remaining receive length and the in-flight count decrease by the
  number of RX_DATA reads; the register block, the events and the two counters end as
  they do when a buffer is present. Nothing else of the driver state changes, so the
  values read are stored nowhere: the memory and the NULL pointer stay as they are.
  The events are the accesses made: the register block ends as they leave it.
\<close>

theorem read_fifo_discard:
  assumes "rx_buf spi = None"
  shows "\<exists>svs stop.
     (let spi' = mchp_corespi_read_fifo io spi;
          drained = int (length (rx_reads (since spi spi'))) in
        since spi spi' = drain_accesses svs @ stop \<and>
        list_all (\<lambda>sv. fst sv AND STATUS_RXFIFO_EMPTY = 0) svs \<and>
        (stop = [] \<and> int (length svs) = max 0 (min (rx_len spi) FIFO_DEPTH) \<or>
         (\<exists>st. stop = [Readl REG_STATUS st] \<and> st AND STATUS_RXFIFO_EMPTY \<noteq> 0 \<and>
               int (length svs) < min (rx_len spi) FIFO_DEPTH)) \<and>
        rx_reads (since spi spi') = map snd svs \<and>
        replay io (since spi spi') (regs spi) = Some (regs spi') \<and>
        spi' = spi\<lparr>regs := regs spi', trace := trace spi',
                   rx_len := rx_len spi - drained, pending := pending spi - drained\<rparr> \<and>
        (\<forall>p. regs (mchp_corespi_read_fifo io (spi\<lparr>rx_buf := Some p\<rparr>)) = regs spi' \<and>
             trace (mchp_corespi_read_fifo io (spi\<lparr>rx_buf := Some p\<rparr>)) = trace spi' \<and>
             rx_len (mchp_corespi_read_fifo io (spi\<lparr>rx_buf := Some p\<rparr>)) = rx_len spi' \<and>
             pending (mchp_corespi_read_fifo io (spi\<lparr>rx_buf := Some p\<rparr>)) = pending spi'))"
proof -
  define fm where "fm = min (rx_len spi) FIFO_DEPTH"
  obtain j s1 where run: "read_fifo_loop io fm 0 spi = (j, s1)" by fastforce
  from read_fifo_loop_shape[OF run] obtain svs stop where
    sh: "trace s1 = trace spi @ drain_accesses svs @ stop"
        "list_all (\<lambda>sv. fst sv AND STATUS_RXFIFO_EMPTY = 0) svs" "j = 0 + int (length svs)"
        "stop = [] \<and> \<not> j < fm \<or>
         (\<exists>st. stop = [Readl REG_STATUS st] \<and> st AND STATUS_RXFIFO_EMPTY \<noteq> 0 \<and> j < fm)"
    by blast
  from read_fifo_loop_fields[OF run] have f: "0 \<le> j" "j \<le> fm \<or> j = 0" by auto
  define spi' where "spi' = mchp_corespi_read_fifo io spi"
  have tr: "trace spi' = trace spi @ drain_accesses svs @ stop"
    by (simp add: spi'_def mchp_corespi_read_fifo_def fm_def[symmetric] run sh(1))
  then have si: "since spi spi' = drain_accesses svs @ stop" by (rule since_append)
  have st: "rx_reads stop = []" using sh(4) by auto
  have rr: "rx_reads (since spi spi') = map snd svs" by (simp add: si st)
  have stop: "stop = [] \<and> int (length svs) = max 0 (min (rx_len spi) FIFO_DEPTH) \<or>
         (\<exists>st. stop = [Readl REG_STATUS st] \<and> st AND STATUS_RXFIFO_EMPTY \<noteq> 0 \<and>
               int (length svs) < min (rx_len spi) FIFO_DEPTH)"
    using sh(3,4) f unfolding fm_def[symmetric] by auto
  from read_fifo_absent_buffer[OF assms, of io, unfolded Let_def, folded spi'_def]
  have old: "spi' = spi\<lparr>regs := regs spi', trace := trace spi',
                      rx_len := rx_len spi - int (length (rx_reads (since spi spi'))),
                      pending := pending spi - int (length (rx_reads (since spi spi')))\<rparr>"
    "\<forall>p. regs (mchp_corespi_read_fifo io (spi\<lparr>rx_buf := Some p\<rparr>)) = regs spi' \<and>
                trace (mchp_corespi_read_fifo io (spi\<lparr>rx_buf := Some p\<rparr>)) = trace spi' \<and>
                rx_len (mchp_corespi_read_fifo io (spi\<lparr>rx_buf := Some p\<rparr>)) = rx_len spi' \<and>
                pending (mchp_corespi_read_fifo io (spi\<lparr>rx_buf := Some p\<rparr>)) = pending spi'"
    by blast+
  have rp: "replay io (since spi spi') (regs spi) = Some (regs spi')"
    unfolding spi'_def by (rule performed_since[OF performed_read_fifo])
  show ?thesis
    unfolding Let_def spi'_def[symmetric]
    by (rule exI[of _ svs], rule exI[of _ stop]) (intro conjI si sh(2) stop rr rp old)
qed

theorem read_fifo_discard_witness:
  "rx_buf spi_rx2 = None \<and>
   rx_reads (since spi_rx2 (mchp_corespi_read_fifo corespi spi_rx2)) = [7, 9] \<and>
   mchp_corespi_read_fifo corespi spi_rx2 =
     spi_rx2\<lparr>regs := idle_hw, rx_len := 0, pending := 0,
             trace := drain_accesses [(0, 7), (0, 9)]\<rparr>"
  using read_fifo_discard [of spi_rx2 corespi]
  by (simp add: spi_rx2_def run_defs reg_consts bit_consts)

section \<open>Chip select\<close>

lemma set_cs_bits:
  assumes "cs < 32"
  shows "bit ((reg AND NOT (BIT cs)) OR push_bit cs (of_bool (\<not> disable))) n =
           (if n = cs then \<not> disable else bit (reg :: u32) n)"
  using assms by (auto simp: BIT_def bit_simps dest: bit_imp_le_length)

text \<open>
  Claim C10. For a chip select index below 31, where the shift of the source is defined,
  \<open>mchp_corespi_set_cs\<close> reads SLAVE_SELECT once and writes it once; in the value
  written, bit \<open>cs\<close> is set exactly when \<open>disable\<close> is false, and every other bit (the
  other select lines, direct mode, output enable) is the bit of the value read.
  Nothing else of the driver state changes.
\<close>

theorem set_cs_one_bit:
  assumes "cs < 31"
  shows "case readl io (regs spi) REG_SLAVE_SELECT of
           (old, h) \<Rightarrow>
             \<exists>new. mchp_corespi_set_cs io cs disable spi =
                      spi\<lparr>regs := writel io new h REG_SLAVE_SELECT,
                          trace := trace spi @ [Readl REG_SLAVE_SELECT old,
                                                Writel REG_SLAVE_SELECT new]\<rparr> \<and>
                    bit new cs = (\<not> disable) \<and>
                    (\<forall>n. n \<noteq> cs \<longrightarrow> bit new n = bit old n)"
proof -
  obtain old h where r: "readl io (regs spi) REG_SLAVE_SELECT = (old, h)" by fastforce
  define new where "new = (old AND NOT (BIT cs)) OR push_bit cs (of_bool (\<not> disable))"
  have eq: "mchp_corespi_set_cs io cs disable spi =
              spi\<lparr>regs := writel io new h REG_SLAVE_SELECT,
                  trace := trace spi @ [Readl REG_SLAVE_SELECT old, Writel REG_SLAVE_SELECT new]\<rparr>"
    by (simp add: mchp_corespi_set_cs_def mchp_corespi_read_def mchp_corespi_write_def r new_def)
  have b: "bit new cs = (\<not> disable)" "\<forall>n. n \<noteq> cs \<longrightarrow> bit new n = bit old n"
    unfolding new_def using set_cs_bits[of cs] assms by simp_all
  show ?thesis
    unfolding r prod.case using eq b by blast
qed

theorem set_cs_one_bit_witness:
  "(1::nat) < 31 \<and>
   mchp_corespi_set_cs corespi 1 False spi_cs =
     spi_cs\<lparr>regs := idle_hw\<lparr>reg_file := (\<lambda>r. if r = REG_SLAVE_SELECT then 0x307 else 0)\<rparr>,
            trace := [Readl REG_SLAVE_SELECT 0x305, Writel REG_SLAVE_SELECT 0x307]\<rparr> \<and>
   mchp_corespi_set_cs corespi 2 True spi_cs =
     spi_cs\<lparr>regs := idle_hw\<lparr>reg_file := (\<lambda>r. if r = REG_SLAVE_SELECT then 0x301 else 0)\<rparr>,
            trace := [Readl REG_SLAVE_SELECT 0x305, Writel REG_SLAVE_SELECT 0x301]\<rparr>"
  using set_cs_one_bit [where cs=1 and io=corespi and spi=spi_cs and disable=False]
  by (simp add: spi_cs_def mchp_corespi_set_cs_def run_defs reg_consts bit_consts fun_eq_iff)

section \<open>The interrupt handler\<close>

subsection \<open>The blocks of the handler\<close>

lemma fault_events_obs [simp]:
  "tx_writes (fault_events intfield rl tlen) = []"
  "rx_reads (fault_events intfield rl tlen) = []"
  "finalized (fault_events intfield rl tlen) = 0"
  "list_all (\<lambda>e. \<not> fifo_event e) (fault_events intfield rl tlen)"
  by (simp_all add: fault_events_def reg_consts)

lemma irq_tail_spec:
  "\<exists>h. irq_tx_underrun io intfield (irq_rx_overflow io intfield (irq_rxrdy io intfield (fin, spi)))
     = (fin \<or> fault_cause intfield,
        spi\<lparr>regs := h, trace := trace spi @ fault_events intfield (rx_len spi) (tx_len spi)\<rparr>)"
  by (auto simp: irq_tx_underrun_def irq_rx_overflow_def irq_rxrdy_def fault_cause_def
        fault_events_def mchp_corespi_write_def dev_err_def Let_def
        intro!: mchp_corespi.equality)

lemma drain_eventsI:
  "\<forall>e\<in>set evs. \<exists>v. e = Readl REG_STATUS v \<or> e = Readl REG_RX_DATA v \<Longrightarrow> list_all drain_event evs"
  by (auto simp: list_all_iff)

lemma fill_eventsI:
  "\<forall>e\<in>set evs. \<exists>v. e = Readl REG_STATUS v \<or> e = Writel REG_TX_DATA v \<Longrightarrow> list_all fill_event evs"
  by (auto simp: list_all_iff)

text \<open>The drain step of the TXDONE block: \<open>if (spi->rx_len) mchp_corespi_read_fifo(spi)\<close>.\<close>

lemma drain_step:
  fixes spi :: "'h mchp_corespi" and io :: "'h iomem"
  defines "s2 \<equiv> (if rx_len spi \<noteq> 0 then mchp_corespi_read_fifo io spi else spi)"
  shows "\<exists>drain. trace s2 = trace spi @ drain \<and>
     list_all drain_event drain \<and> (rx_len spi = 0 \<longrightarrow> drain = []) \<and>
     tx_writes drain = [] \<and> finalized drain = 0 \<and>
     int (length (rx_reads drain)) \<le> max 0 (min (rx_len spi) FIFO_DEPTH) \<and>
     rx_len s2 = rx_len spi - int (length (rx_reads drain)) \<and>
     pending s2 = pending spi - int (length (rx_reads drain)) \<and>
     (case rx_buf spi of
        None \<Rightarrow> rx_buf s2 = None \<and> ram s2 = ram spi
      | Some p \<Rightarrow> rx_buf s2 = Some (p + length (rx_reads drain)) \<and>
          map (ram s2) [p..<p + length (rx_reads drain)] = map ucast (rx_reads drain) \<and>
          (\<forall>a. a < p \<or> p + length (rx_reads drain) \<le> a \<longrightarrow> ram s2 a = ram spi a)) \<and>
     clk s2 = clk spi \<and> tx_buf s2 = tx_buf spi \<and> clk_gen s2 = clk_gen spi \<and>
     clk_mode s2 = clk_mode spi \<and> irq s2 = irq spi \<and> tx_len s2 = tx_len spi"
proof (cases "rx_len spi = 0")
  case True
  then have "s2 = spi" by (simp add: s2_def)
  then show ?thesis by (auto intro!: exI[of _ "[]"] split: option.splits)
next
  case False
  then have s2: "s2 = mchp_corespi_read_fifo io spi" by (simp add: s2_def)
  from read_fifo_counts[of io spi] obtain drain where
    d: "trace s2 = trace spi @ drain" "tx_writes drain = []" "finalized drain = 0"
       "\<forall>e\<in>set drain. \<exists>v. e = Readl REG_STATUS v \<or> e = Readl REG_RX_DATA v"
       "rx_len s2 = rx_len spi - int (length (rx_reads drain))"
       "pending s2 = pending spi - int (length (rx_reads drain))"
       "int (length (rx_reads drain)) \<le> max 0 (min (rx_len spi) FIFO_DEPTH)"
    unfolding s2 by blast
  have since: "since spi s2 = drain" using d(1) by simp
  have buf: "(case rx_buf spi of
        None \<Rightarrow> rx_buf s2 = None \<and> ram s2 = ram spi
      | Some p \<Rightarrow> rx_buf s2 = Some (p + length (rx_reads drain)) \<and>
          map (ram s2) [p..<p + length (rx_reads drain)] = map ucast (rx_reads drain) \<and>
          (\<forall>a. a < p \<or> p + length (rx_reads drain) \<le> a \<longrightarrow> ram s2 a = ram spi a))"
    using read_fifo_buffer[where io=io and spi=spi] unfolding s2[symmetric] since Let_def .
  have fields: "clk s2 = clk spi \<and> tx_buf s2 = tx_buf spi \<and> clk_gen s2 = clk_gen spi \<and>
     clk_mode s2 = clk_mode spi \<and> irq s2 = irq spi \<and> tx_len s2 = tx_len spi"
    using read_fifo_fields[of io spi] unfolding s2 .
  show ?thesis
    by (rule exI[of _ drain]) (intro conjI d(1) drain_eventsI[OF d(4)] d(2) d(3) d(7) d(5) d(6) buf fields, simp add: False)
qed

text \<open>The fill step: \<open>if (spi->tx_len) mchp_corespi_write_fifo(spi)\<close>.\<close>

lemma fill_step:
  fixes spi :: "'h mchp_corespi" and io :: "'h iomem"
  defines "s3 \<equiv> (if tx_len spi \<noteq> 0 then mchp_corespi_write_fifo io spi else spi)"
  shows "\<exists>c0 c1 c2 pushes.
     trace s3 = trace spi @ (if tx_len spi = 0 then [] else xfer_size_events c0 c1 c2 @ pushes) \<and>
     list_all fill_event pushes \<and> (tx_len spi = 0 \<longrightarrow> pushes = []) \<and>
     rx_reads pushes = [] \<and> finalized pushes = 0 \<and>
     (0 < tx_len spi \<longrightarrow> framecnt c2 = nat (min (tx_len spi) FIFO_DEPTH)) \<and>
     int (length (tx_writes pushes)) \<le> max 0 (min (tx_len spi) FIFO_DEPTH) \<and>
     tx_len s3 = tx_len spi - int (length (tx_writes pushes)) \<and>
     pending s3 = pending spi + int (length (tx_writes pushes)) \<and>
     (case tx_buf spi of
        None \<Rightarrow> tx_buf s3 = None \<and>
                tx_writes pushes = replicate (length (tx_writes pushes)) 0xaa
      | Some p \<Rightarrow> tx_buf s3 = Some (p + length (tx_writes pushes)) \<and>
          tx_writes pushes = map (\<lambda>a. ucast (ram spi a)) [p..<p + length (tx_writes pushes)]) \<and>
     clk s3 = clk spi \<and> rx_buf s3 = rx_buf spi \<and> ram s3 = ram spi \<and>
     clk_gen s3 = clk_gen spi \<and> clk_mode s3 = clk_mode spi \<and> irq s3 = irq spi \<and>
     rx_len s3 = rx_len spi"
proof (cases "tx_len spi = 0")
  case True
  then have "s3 = spi" by (simp add: s3_def)
  then show ?thesis using True
    by (auto intro!: exI[of _ "[]"] split: option.splits)
next
  case False
  then have s3: "s3 = mchp_corespi_write_fifo io spi" by (simp add: s3_def)
  from write_fifo_spec[of io spi] obtain c0 c1 c2 pushes where
    w: "trace s3 = trace spi @ xfer_size_events c0 c1 c2 @ pushes"
       "0 \<le> tx_len spi \<longrightarrow> framecnt c2 = nat (min (tx_len spi) FIFO_DEPTH)"
       "rx_reads pushes = []" "finalized pushes = 0"
       "\<forall>e\<in>set pushes. \<exists>v. e = Readl REG_STATUS v \<or> e = Writel REG_TX_DATA v"
       "tx_len s3 = tx_len spi - int (length (tx_writes pushes))"
       "pending s3 = pending spi + int (length (tx_writes pushes))"
       "int (length (tx_writes pushes)) \<le> max 0 (min (tx_len spi) FIFO_DEPTH)"
       "(case tx_buf spi of
        None \<Rightarrow> tx_buf s3 = None \<and>
                tx_writes pushes = replicate (length (tx_writes pushes)) 0xaa
      | Some p \<Rightarrow> tx_buf s3 = Some (p + length (tx_writes pushes)) \<and>
          tx_writes pushes = map (\<lambda>a. ucast (ram spi a)) [p..<p + length (tx_writes pushes)])"
    unfolding s3 by blast
  have fields: "clk s3 = clk spi \<and> rx_buf s3 = rx_buf spi \<and> ram s3 = ram spi \<and>
     clk_gen s3 = clk_gen spi \<and> clk_mode s3 = clk_mode spi \<and> irq s3 = irq spi \<and>
     rx_len s3 = rx_len spi"
    using write_fifo_fields[of io spi] unfolding s3 .
  have tr: "trace s3 = trace spi @ (if tx_len spi = 0 then [] else xfer_size_events c0 c1 c2 @ pushes)"
    using w(1) False by simp
  have fc: "0 < tx_len spi \<longrightarrow> framecnt c2 = nat (min (tx_len spi) FIFO_DEPTH)"
    using w(2) by simp
  show ?thesis
    by (rule exI[of _ c0], rule exI[of _ c1], rule exI[of _ c2], rule exI[of _ pushes])
       (intro conjI tr fill_eventsI[OF w(5)] w(3) w(4) fc w(8) w(6) w(7) w(9) fields,
        simp add: False)
qed

subsection \<open>The handler as a whole\<close>

lemma interrupt_cases:
  fixes spi :: "'h mchp_corespi" and io :: "'h iomem"
  assumes mis: "readl io (regs spi) REG_MIS = (mis, h)"
  defines "intfield \<equiv> mis AND 0xf"
    and "s0 \<equiv> spi\<lparr>regs := h, trace := trace spi @ [Readl REG_MIS mis]\<rparr>"
  defines "s1 \<equiv> mchp_corespi_write io REG_INT_CLEAR INT_TXDONE s0"
  defines "s2 \<equiv> (if rx_len s1 \<noteq> 0 then mchp_corespi_read_fifo io s1 else s1)"
  defines "s3 \<equiv> (if tx_len s2 \<noteq> 0 then mchp_corespi_write_fifo io s2 else s2)"
  defines "s4 \<equiv> (if intfield AND INT_TXDONE \<noteq> 0 then s3 else s0)"
  shows "\<exists>h'. mchp_corespi_interrupt io spi =
     (if intfield = 0 then (IRQ_NONE, s0)
      else (IRQ_HANDLED,
            s4\<lparr>regs := h',
               trace := trace s4 @ fault_events intfield (rx_len s4) (tx_len s4) @
                 (if (intfield AND INT_TXDONE \<noteq> 0 \<and> rx_len s4 = 0) \<or> fault_cause intfield
                  then [Finalize] else [])\<rparr>))"
proof -
  have rd: "mchp_corespi_read io REG_MIS spi = (mis, s0)"
    by (simp add: mchp_corespi_read_def mis s0_def)
  have tx: "irq_txdone io intfield (False, s0) =
              (intfield AND INT_TXDONE \<noteq> 0 \<and> rx_len s4 = 0, s4)"
    by (simp add: irq_txdone_def Let_def s1_def s2_def s3_def s4_def)
  obtain h' where tail:
    "irq_tx_underrun io intfield (irq_rx_overflow io intfield (irq_rxrdy io intfield
        (intfield AND INT_TXDONE \<noteq> 0 \<and> rx_len s4 = 0, s4)))
     = ((intfield AND INT_TXDONE \<noteq> 0 \<and> rx_len s4 = 0) \<or> fault_cause intfield,
        s4\<lparr>regs := h', trace := trace s4 @ fault_events intfield (rx_len s4) (tx_len s4)\<rparr>)"
    using irq_tail_spec[of io intfield "intfield AND INT_TXDONE \<noteq> 0 \<and> rx_len s4 = 0" s4]
    by blast
  show ?thesis
    by (rule exI[of _ h'])
       (simp add: mchp_corespi_interrupt_def rd Let_def intfield_def[symmetric] tx tail
          spi_finalize_current_transfer_def)
qed

lemma interrupt_spec:
  fixes spi :: "'h mchp_corespi" and io :: "'h iomem"
  assumes mis: "readl io (regs spi) REG_MIS = (mis, h)"
    and run: "mchp_corespi_interrupt io spi = (r, spi')"
  shows "\<exists>drain c0 c1 c2 pushes.
     r = (if mis AND 0xf = 0 then IRQ_NONE else IRQ_HANDLED) \<and>
     trace spi' = trace spi @ Readl REG_MIS mis #
        (if mis AND 0xf = 0 then []
         else (if (mis AND 0xf) AND INT_TXDONE \<noteq> 0
               then Writel REG_INT_CLEAR INT_TXDONE # drain @
                      (if tx_len spi = 0 then [] else xfer_size_events c0 c1 c2 @ pushes)
               else []) @
              fault_events (mis AND 0xf) (rx_len spi') (tx_len spi') @
              (if ((mis AND 0xf) AND INT_TXDONE \<noteq> 0 \<and> rx_len spi' = 0) \<or> fault_cause (mis AND 0xf)
               then [Finalize] else [])) \<and>
     ((mis AND 0xf) AND INT_TXDONE = 0 \<longrightarrow> drain = [] \<and> pushes = []) \<and>
     (rx_len spi = 0 \<longrightarrow> drain = []) \<and> (tx_len spi = 0 \<longrightarrow> pushes = []) \<and>
     list_all drain_event drain \<and> list_all fill_event pushes \<and>
     ((mis AND 0xf) AND INT_TXDONE \<noteq> 0 \<and> 0 < tx_len spi \<longrightarrow>
        framecnt c2 = nat (min (tx_len spi) FIFO_DEPTH)) \<and>
     int (length (rx_reads drain)) \<le> max 0 (min (rx_len spi) FIFO_DEPTH) \<and>
     int (length (tx_writes pushes)) \<le> max 0 (min (tx_len spi) FIFO_DEPTH) \<and>
     rx_len spi' = rx_len spi - int (length (rx_reads drain)) \<and>
     tx_len spi' = tx_len spi - int (length (tx_writes pushes)) \<and>
     pending spi' = pending spi - int (length (rx_reads drain)) + int (length (tx_writes pushes)) \<and>
     (case rx_buf spi of
        None \<Rightarrow> rx_buf spi' = None \<and> ram spi' = ram spi
      | Some p \<Rightarrow> rx_buf spi' = Some (p + length (rx_reads drain)) \<and>
          map (ram spi') [p..<p + length (rx_reads drain)] = map ucast (rx_reads drain) \<and>
          (\<forall>a. a < p \<or> p + length (rx_reads drain) \<le> a \<longrightarrow> ram spi' a = ram spi a)) \<and>
     (case tx_buf spi of
        None \<Rightarrow> tx_buf spi' = None \<and>
                tx_writes pushes = replicate (length (tx_writes pushes)) 0xaa
      | Some p \<Rightarrow> tx_buf spi' = Some (p + length (tx_writes pushes)) \<and>
          tx_writes pushes = map (\<lambda>a. ucast (ram spi' a)) [p..<p + length (tx_writes pushes)]) \<and>
     clk spi' = clk spi \<and> clk_gen spi' = clk_gen spi \<and> clk_mode spi' = clk_mode spi \<and>
     irq spi' = irq spi"
proof -
  define intfield where "intfield = mis AND 0xf"
  define s0 where "s0 = spi\<lparr>regs := h, trace := trace spi @ [Readl REG_MIS mis]\<rparr>"
  define s1 where "s1 = mchp_corespi_write io REG_INT_CLEAR INT_TXDONE s0"
  define s2 where "s2 = (if rx_len s1 \<noteq> 0 then mchp_corespi_read_fifo io s1 else s1)"
  define s3 where "s3 = (if tx_len s2 \<noteq> 0 then mchp_corespi_write_fifo io s2 else s2)"
  define s4 where "s4 = (if intfield AND INT_TXDONE \<noteq> 0 then s3 else s0)"
  define fin where "fin = ((intfield AND INT_TXDONE \<noteq> 0 \<and> rx_len s4 = 0) \<or> fault_cause intfield)"
  from interrupt_cases[OF mis] obtain h' where
    "mchp_corespi_interrupt io spi =
       (if intfield = 0 then (IRQ_NONE, s0)
        else (IRQ_HANDLED,
              s4\<lparr>regs := h',
                 trace := trace s4 @ fault_events intfield (rx_len s4) (tx_len s4) @
                   (if fin then [Finalize] else [])\<rparr>))"
    unfolding intfield_def s0_def s1_def s2_def s3_def s4_def fin_def by blast
  with run have res:
    "r = (if intfield = 0 then IRQ_NONE else IRQ_HANDLED)"
    "spi' = (if intfield = 0 then s0
             else s4\<lparr>regs := h',
                 trace := trace s4 @ fault_events intfield (rx_len s4) (tx_len s4) @
                   (if fin then [Finalize] else [])\<rparr>)"
    by (auto split: if_splits)
  show ?thesis
  proof (cases "intfield AND INT_TXDONE \<noteq> 0")
    case False
    then have s4: "s4 = s0" by (simp add: s4_def)
    have nf: "intfield = 0 \<Longrightarrow> \<not> fault_cause intfield" by (simp add: fault_cause_def)
    show ?thesis
      apply (rule exI[of _ "[]"], rule exI[of _ 0], rule exI[of _ 0], rule exI[of _ 0], rule exI[of _ "[]"])
      using False res s4
      by (auto simp: intfield_def[symmetric] s0_def fin_def split: option.splits)
  next
    case True
    then have s4: "s4 = s3" and nz: "intfield \<noteq> 0" by (auto simp: s4_def)
    have f1: "rx_len s1 = rx_len spi" "tx_len s1 = tx_len spi" "pending s1 = pending spi"
      "rx_buf s1 = rx_buf spi" "tx_buf s1 = tx_buf spi" "ram s1 = ram spi" "clk s1 = clk spi"
      "clk_gen s1 = clk_gen spi" "clk_mode s1 = clk_mode spi" "irq s1 = irq spi"
      "trace s1 = trace spi @ [Readl REG_MIS mis, Writel REG_INT_CLEAR INT_TXDONE]"
      by (simp_all add: s1_def s0_def mchp_corespi_write_def)
    from drain_step[where spi=s1 and io=io] obtain drain where
      d: "trace s2 = trace s1 @ drain" "list_all drain_event drain" "rx_len s1 = 0 \<longrightarrow> drain = []"
         "int (length (rx_reads drain)) \<le> max 0 (min (rx_len s1) FIFO_DEPTH)"
         "rx_len s2 = rx_len s1 - int (length (rx_reads drain))"
         "pending s2 = pending s1 - int (length (rx_reads drain))"
         "(case rx_buf s1 of
            None \<Rightarrow> rx_buf s2 = None \<and> ram s2 = ram s1
          | Some p \<Rightarrow> rx_buf s2 = Some (p + length (rx_reads drain)) \<and>
              map (ram s2) [p..<p + length (rx_reads drain)] = map ucast (rx_reads drain) \<and>
              (\<forall>a. a < p \<or> p + length (rx_reads drain) \<le> a \<longrightarrow> ram s2 a = ram s1 a))"
         "clk s2 = clk s1 \<and> tx_buf s2 = tx_buf s1 \<and> clk_gen s2 = clk_gen s1 \<and>
          clk_mode s2 = clk_mode s1 \<and> irq s2 = irq s1 \<and> tx_len s2 = tx_len s1"
      unfolding s2_def[symmetric] by blast
    from fill_step[where spi=s2 and io=io] obtain c0 c1 c2 pushes where
      p: "trace s3 = trace s2 @ (if tx_len s2 = 0 then [] else xfer_size_events c0 c1 c2 @ pushes)"
         "list_all fill_event pushes" "tx_len s2 = 0 \<longrightarrow> pushes = []"
         "0 < tx_len s2 \<longrightarrow> framecnt c2 = nat (min (tx_len s2) FIFO_DEPTH)"
         "int (length (tx_writes pushes)) \<le> max 0 (min (tx_len s2) FIFO_DEPTH)"
         "tx_len s3 = tx_len s2 - int (length (tx_writes pushes))"
         "pending s3 = pending s2 + int (length (tx_writes pushes))"
         "(case tx_buf s2 of
            None \<Rightarrow> tx_buf s3 = None \<and>
                    tx_writes pushes = replicate (length (tx_writes pushes)) 0xaa
          | Some p \<Rightarrow> tx_buf s3 = Some (p + length (tx_writes pushes)) \<and>
              tx_writes pushes = map (\<lambda>a. ucast (ram s2 a)) [p..<p + length (tx_writes pushes)])"
         "clk s3 = clk s2 \<and> rx_buf s3 = rx_buf s2 \<and> ram s3 = ram s2 \<and>
          clk_gen s3 = clk_gen s2 \<and> clk_mode s3 = clk_mode s2 \<and> irq s3 = irq s2 \<and>
          rx_len s3 = rx_len s2"
      unfolding s3_def[symmetric] by blast
    have spi': "spi' = s3\<lparr>regs := h',
                 trace := trace s3 @ fault_events intfield (rx_len s3) (tx_len s3) @
                   (if fin then [Finalize] else [])\<rparr>"
      using res(2) nz s4 by simp
    have fin: "fin = (rx_len s3 = 0 \<or> fault_cause intfield)"
      using True by (simp add: fin_def s4)
    have tl2: "tx_len s2 = tx_len spi" using d(8) f1 by simp
    have A: "r = (if mis AND 0xf = 0 then IRQ_NONE else IRQ_HANDLED)"
      using res(1) by (simp add: intfield_def)
    have B: "trace spi' = trace spi @ Readl REG_MIS mis #
        (if mis AND 0xf = 0 then []
         else (if (mis AND 0xf) AND INT_TXDONE \<noteq> 0
               then Writel REG_INT_CLEAR INT_TXDONE # drain @
                      (if tx_len spi = 0 then [] else xfer_size_events c0 c1 c2 @ pushes)
               else []) @
              fault_events (mis AND 0xf) (rx_len spi') (tx_len spi') @
              (if ((mis AND 0xf) AND INT_TXDONE \<noteq> 0 \<and> rx_len spi' = 0) \<or> fault_cause (mis AND 0xf)
               then [Finalize] else []))"
      using True nz fin by (simp add: spi' p(1) d(1) f1 tl2 intfield_def[symmetric])
    have C: "(mis AND 0xf) AND INT_TXDONE = 0 \<longrightarrow> drain = [] \<and> pushes = []"
      using True by (simp add: intfield_def)
    have D: "rx_len spi = 0 \<longrightarrow> drain = []" "tx_len spi = 0 \<longrightarrow> pushes = []"
      "(mis AND 0xf) AND INT_TXDONE \<noteq> 0 \<and> 0 < tx_len spi \<longrightarrow>
         framecnt c2 = nat (min (tx_len spi) FIFO_DEPTH)"
      "int (length (rx_reads drain)) \<le> max 0 (min (rx_len spi) FIFO_DEPTH)"
      "int (length (tx_writes pushes)) \<le> max 0 (min (tx_len spi) FIFO_DEPTH)"
      using d(3,4) p(3,4,5) f1 tl2 by simp_all
    have E: "rx_len spi' = rx_len spi - int (length (rx_reads drain))"
      "tx_len spi' = tx_len spi - int (length (tx_writes pushes))"
      "pending spi' = pending spi - int (length (rx_reads drain)) + int (length (tx_writes pushes))"
      using d(5,6) p(6,7,9) f1 tl2 by (simp_all add: spi')
    have F: "(case rx_buf spi of
        None \<Rightarrow> rx_buf spi' = None \<and> ram spi' = ram spi
      | Some p \<Rightarrow> rx_buf spi' = Some (p + length (rx_reads drain)) \<and>
          map (ram spi') [p..<p + length (rx_reads drain)] = map ucast (rx_reads drain) \<and>
          (\<forall>a. a < p \<or> p + length (rx_reads drain) \<le> a \<longrightarrow> ram spi' a = ram spi a))"
      using d(7) p(9) f1 by (simp add: spi' split: option.splits)
    have G: "(case tx_buf spi of
        None \<Rightarrow> tx_buf spi' = None \<and>
                tx_writes pushes = replicate (length (tx_writes pushes)) 0xaa
      | Some p \<Rightarrow> tx_buf spi' = Some (p + length (tx_writes pushes)) \<and>
          tx_writes pushes = map (\<lambda>a. ucast (ram spi' a)) [p..<p + length (tx_writes pushes)])"
      using p(8,9) d(8) f1 by (simp add: spi' split: option.splits)
    have H: "clk spi' = clk spi \<and> clk_gen spi' = clk_gen spi \<and> clk_mode spi' = clk_mode spi \<and>
       irq spi' = irq spi"
      using p(9) d(8) f1 by (simp add: spi')
    show ?thesis
      by (rule exI[of _ drain], rule exI[of _ c0], rule exI[of _ c1], rule exI[of _ c2],
          rule exI[of _ pushes])
         (intro conjI A B C D d(2) p(2) E F G H)
  qed
qed

subsection \<open>A transfer-done interrupt\<close>

lemmas irq_defs =
  mchp_corespi_interrupt_def irq_txdone_def irq_rxrdy_def irq_rx_overflow_def
  irq_tx_underrun_def spi_finalize_current_transfer_def dev_err_def mis_hw_def




subsection \<open>A fault interrupt\<close>

text \<open>
  Claim C2, as the code has it. An interrupt that carries the receive-overflow or the
  transmit-underrun cause is handled in this order: MIS is read; when the interrupt
  carries the transfer-done cause as well, that cause is cleared and the drain and the
  fill run as on any transfer-done interrupt; then each of the causes receive-ready,
  receive-overflow and transmit-underrun that is raised is cleared by a write to
  INT_CLEAR, and each fault is logged with the remaining lengths right after its cause
  is cleared; then \<open>spi_finalize_current_transfer\<close> is called, once, as the last
  action, whatever the remaining lengths are. When the interrupt does not carry the
  transfer-done cause, the handler touches no FIFO register and leaves every field of
  the driver state as it was. The call that finalizes is the one of a successful
  completion: it takes no status.
\<close>

theorem interrupt_fault:
  fixes spi :: "'h mchp_corespi" and io :: "'h iomem"
  assumes mis: "readl io (regs spi) REG_MIS = (mis, h)"
    and fault: "fault_cause (mis AND 0xf)"
    and run: "mchp_corespi_interrupt io spi = (r, spi')"
  shows "\<exists>drain c0 c1 c2 pushes.
     r = IRQ_HANDLED \<and>
     since spi spi' =
       Readl REG_MIS mis #
       (if (mis AND 0xf) AND INT_TXDONE \<noteq> 0
        then Writel REG_INT_CLEAR INT_TXDONE # drain @
               (if tx_len spi = 0 then [] else xfer_size_events c0 c1 c2 @ pushes)
        else []) @
       (if (mis AND 0xf) AND INT_RXRDY \<noteq> 0 then [Writel REG_INT_CLEAR INT_RXRDY] else []) @
       (if (mis AND 0xf) AND INT_RX_CHANNEL_OVERFLOW \<noteq> 0
        then [Writel REG_INT_CLEAR INT_RX_CHANNEL_OVERFLOW,
              Dev_err (RX_OVERFLOW (rx_len spi') (tx_len spi'))]
        else []) @
       (if (mis AND 0xf) AND INT_TX_CHANNEL_UNDERRUN \<noteq> 0
        then [Writel REG_INT_CLEAR INT_TX_CHANNEL_UNDERRUN,
              Dev_err (TX_UNDERFLOW (rx_len spi') (tx_len spi'))]
        else []) @
       [Finalize] \<and>
     list_all drain_event drain \<and> list_all fill_event pushes \<and>
     finalized (since spi spi') = 1 \<and> last (since spi spi') = Finalize \<and>
     ((mis AND 0xf) AND INT_RX_CHANNEL_OVERFLOW \<noteq> 0 \<longrightarrow>
        Dev_err (RX_OVERFLOW (rx_len spi') (tx_len spi')) \<in> set (since spi spi')) \<and>
     ((mis AND 0xf) AND INT_TX_CHANNEL_UNDERRUN \<noteq> 0 \<longrightarrow>
        Dev_err (TX_UNDERFLOW (rx_len spi') (tx_len spi')) \<in> set (since spi spi')) \<and>
     ((mis AND 0xf) AND INT_TXDONE = 0 \<longrightarrow>
        since spi spi' =
          Readl REG_MIS mis # fault_events (mis AND 0xf) (rx_len spi) (tx_len spi) @ [Finalize] \<and>
        spi' = spi\<lparr>regs := regs spi', trace := trace spi'\<rparr>)"
proof -
  have nz: "mis AND 0xf \<noteq> 0" using fault by (auto simp: fault_cause_def)
  from interrupt_spec[OF mis run] obtain drain c0 c1 c2 pushes where
    s: "r = (if mis AND 0xf = 0 then IRQ_NONE else IRQ_HANDLED)"
     "trace spi' = trace spi @ Readl REG_MIS mis #
        (if mis AND 0xf = 0 then []
         else (if (mis AND 0xf) AND INT_TXDONE \<noteq> 0
               then Writel REG_INT_CLEAR INT_TXDONE # drain @
                      (if tx_len spi = 0 then [] else xfer_size_events c0 c1 c2 @ pushes)
               else []) @
              fault_events (mis AND 0xf) (rx_len spi') (tx_len spi') @
              (if ((mis AND 0xf) AND INT_TXDONE \<noteq> 0 \<and> rx_len spi' = 0) \<or> fault_cause (mis AND 0xf)
               then [Finalize] else []))"
     "(mis AND 0xf) AND INT_TXDONE = 0 \<longrightarrow> drain = [] \<and> pushes = []"
     "list_all drain_event drain" "list_all fill_event pushes"
     "rx_len spi' = rx_len spi - int (length (rx_reads drain))"
     "tx_len spi' = tx_len spi - int (length (tx_writes pushes))"
     "pending spi' = pending spi - int (length (rx_reads drain)) + int (length (tx_writes pushes))"
     "(case rx_buf spi of
        None \<Rightarrow> rx_buf spi' = None \<and> ram spi' = ram spi
      | Some p \<Rightarrow> rx_buf spi' = Some (p + length (rx_reads drain)) \<and>
          map (ram spi') [p..<p + length (rx_reads drain)] = map ucast (rx_reads drain) \<and>
          (\<forall>a. a < p \<or> p + length (rx_reads drain) \<le> a \<longrightarrow> ram spi' a = ram spi a))"
     "(case tx_buf spi of
        None \<Rightarrow> tx_buf spi' = None \<and>
                tx_writes pushes = replicate (length (tx_writes pushes)) 0xaa
      | Some p \<Rightarrow> tx_buf spi' = Some (p + length (tx_writes pushes)) \<and>
          tx_writes pushes = map (\<lambda>a. ucast (ram spi' a)) [p..<p + length (tx_writes pushes)])"
     "clk spi' = clk spi \<and> clk_gen spi' = clk_gen spi \<and> clk_mode spi' = clk_mode spi \<and>
      irq spi' = irq spi"
    by blast
  define block where "block = (if (mis AND 0xf) AND INT_TXDONE \<noteq> 0
               then Writel REG_INT_CLEAR INT_TXDONE # drain @
                      (if tx_len spi = 0 then [] else xfer_size_events c0 c1 c2 @ pushes)
               else [])"
  have fd: "finalized drain = 0" using s(4) by (induction drain) (auto elim: drain_event.elims)
  have fp: "finalized pushes = 0" using s(5) by (induction pushes) (auto elim: fill_event.elims)
  have fb: "finalized block = 0" by (simp add: block_def fd fp)
  have tr: "since spi spi' =
      Readl REG_MIS mis # block @ fault_events (mis AND 0xf) (rx_len spi') (tx_len spi') @ [Finalize]"
    using s(2) nz fault by (intro since_append) (simp add: block_def)
  have A: "r = IRQ_HANDLED" using s(1) nz by simp
  have T: "since spi spi' =
       Readl REG_MIS mis #
       (if (mis AND 0xf) AND INT_TXDONE \<noteq> 0
        then Writel REG_INT_CLEAR INT_TXDONE # drain @
               (if tx_len spi = 0 then [] else xfer_size_events c0 c1 c2 @ pushes)
        else []) @
       (if (mis AND 0xf) AND INT_RXRDY \<noteq> 0 then [Writel REG_INT_CLEAR INT_RXRDY] else []) @
       (if (mis AND 0xf) AND INT_RX_CHANNEL_OVERFLOW \<noteq> 0
        then [Writel REG_INT_CLEAR INT_RX_CHANNEL_OVERFLOW,
              Dev_err (RX_OVERFLOW (rx_len spi') (tx_len spi'))]
        else []) @
       (if (mis AND 0xf) AND INT_TX_CHANNEL_UNDERRUN \<noteq> 0
        then [Writel REG_INT_CLEAR INT_TX_CHANNEL_UNDERRUN,
              Dev_err (TX_UNDERFLOW (rx_len spi') (tx_len spi'))]
        else []) @
       [Finalize]"
    unfolding tr block_def fault_events_def by simp
  have B: "finalized (since spi spi') = 1" by (simp add: tr fb)
  have C: "last (since spi spi') = Finalize" by (simp add: tr)
  have D: "(mis AND 0xf) AND INT_RX_CHANNEL_OVERFLOW \<noteq> 0 \<longrightarrow>
        Dev_err (RX_OVERFLOW (rx_len spi') (tx_len spi')) \<in> set (since spi spi')"
    by (simp add: tr fault_events_def)
  have E: "(mis AND 0xf) AND INT_TX_CHANNEL_UNDERRUN \<noteq> 0 \<longrightarrow>
        Dev_err (TX_UNDERFLOW (rx_len spi') (tx_len spi')) \<in> set (since spi spi')"
    by (simp add: tr fault_events_def)
  have F: "(mis AND 0xf) AND INT_TXDONE = 0 \<longrightarrow>
        since spi spi' =
          Readl REG_MIS mis # fault_events (mis AND 0xf) (rx_len spi) (tx_len spi) @ [Finalize] \<and>
        spi' = spi\<lparr>regs := regs spi', trace := trace spi'\<rparr>"
  proof
    assume no: "(mis AND 0xf) AND INT_TXDONE = 0"
    with s(3) have e: "drain = []" "pushes = []" by simp_all
    have l: "rx_len spi' = rx_len spi" "tx_len spi' = tx_len spi" "pending spi' = pending spi"
      using s(6,7,8) e by simp_all
    have "\<forall>a. ram spi' a = ram spi a"
      using s(9) e by (cases "rx_buf spi") (auto simp: not_less)
    then have b1: "ram spi' = ram spi" by (simp add: fun_eq_iff)
    have b: "rx_buf spi' = rx_buf spi" "tx_buf spi' = tx_buf spi"
      using s(9,10) e by (auto split: option.splits)
    show "since spi spi' =
          Readl REG_MIS mis # fault_events (mis AND 0xf) (rx_len spi) (tx_len spi) @ [Finalize] \<and>
        spi' = spi\<lparr>regs := regs spi', trace := trace spi'\<rparr>"
      using tr no l b b1 s(11) by (auto simp: block_def intro!: mchp_corespi.equality)
  qed
  show ?thesis
    by (rule exI[of _ drain], rule exI[of _ c0], rule exI[of _ c1], rule exI[of _ c2],
        rule exI[of _ pushes])
       (intro conjI A T s(4) s(5) B C D E F)
qed

theorem interrupt_fault_witness:
  "readl corespi (regs spi_over) REG_MIS = (4, regs spi_over) \<and> fault_cause (4 AND 0xf) \<and>
   mchp_corespi_interrupt corespi spi_over =
     (IRQ_HANDLED,
      spi_over\<lparr>regs := mis_hw 0,
               trace := [Readl REG_MIS 4, Writel REG_INT_CLEAR INT_RX_CHANNEL_OVERFLOW,
                         Dev_err (RX_OVERFLOW 34 2), Finalize]\<rparr>) \<and>
   readl corespi (regs spi_done_over) REG_MIS = (5, regs spi_done_over) \<and>
   fault_cause (5 AND 0xf) \<and>
   (case mchp_corespi_interrupt corespi spi_done_over of
      (r, spi') \<Rightarrow> r = IRQ_HANDLED \<and>
        since spi_done_over spi' =
          [Readl REG_MIS 5, Writel REG_INT_CLEAR INT_TXDONE, Readl REG_STATUS 0x40,
           Readl REG_CONTROL 0, Writel REG_CONTROL 0, Readl REG_CONTROL 0,
           Writel REG_CONTROL 0x200, Writel REG_FRAMESUP 0, Writel REG_CONTROL 0x201,
           Readl REG_STATUS 0x40, Writel REG_TX_DATA 0xaa,
           Readl REG_STATUS 0x40, Writel REG_TX_DATA 0xaa,
           Writel REG_INT_CLEAR INT_RX_CHANNEL_OVERFLOW, Dev_err (RX_OVERFLOW 34 0), Finalize])"
  using interrupt_fault [where io=corespi and spi=spi_over and mis=4 and h="regs spi_over"]
    interrupt_fault [where io=corespi and spi=spi_done_over and mis=5 and h="regs spi_done_over"]
  by (simp add: spi_over_def spi_done_over_def irq_defs run_defs reg_consts bit_consts fault_cause_def fun_eq_iff)

text \<open>
  Claim C2 as the specification words it fails. The interrupt that carries
  transfer-done together with receive-overflow still writes two bytes to TX_DATA before
  it finalizes. And what reaches the SPI core on a fault is the same \<open>Finalize\<close> that
  reaches it when a transfer ends well; the fault itself goes to the log only.
\<close>

theorem interrupt_fault_counterexample:
  "(case mchp_corespi_interrupt corespi spi_done_over of
      (r, spi') \<Rightarrow> tx_writes (since spi_done_over spi') = [0xaa, 0xaa] \<and>
                   filter (\<lambda>e. e = Finalize \<or> (\<exists>m. e = Dev_err m)) (since spi_done_over spi')
                     = [Dev_err (RX_OVERFLOW 34 0), Finalize]) \<and>
   (case mchp_corespi_interrupt corespi spi_last of
      (r, spi') \<Rightarrow> filter (\<lambda>e. e = Finalize \<or> (\<exists>m. e = Dev_err m)) (since spi_last spi')
                     = [Finalize])"
  by (simp add: spi_done_over_def spi_last_def irq_defs run_defs reg_consts bit_consts)

section \<open>Sessions\<close>

subsection \<open>Starting a transfer\<close>

lemma not_fifo_obs:
  assumes "list_all (\<lambda>e. \<not> fifo_event e) evs"
  shows "tx_writes evs = [] \<and> rx_reads evs = []"
  using assms
proof (induction evs)
  case Nil then show ?case by simp
next
  case (Cons e evs)
  then show ?case by (cases e) auto
qed

lemma xfer_size_events_not_fifo [simp]:
  "list_all (\<lambda>e. \<not> fifo_event e) (xfer_size_events c0 c1 c2)"
  by (simp add: xfer_size_events_def reg_consts)

lemma set_clk_gen_spec:
  "\<exists>cfg h. mchp_corespi_set_clk_gen io spi = spi\<lparr>regs := h, trace := trace spi @ cfg\<rparr> \<and>
     list_all (\<lambda>e. \<not> fifo_event e) cfg \<and> finalized cfg = 0 \<and>
     filter (\<lambda>e. \<exists>v. e = Writel REG_FRAMESUP v) cfg = []"
proof -
  obtain c0 h0 where r0: "readl io (regs spi) REG_CONTROL = (c0, h0)" by fastforce
  define h1 where "h1 = writel io (c0 AND NOT CONTROL_ENABLE) h0 REG_CONTROL"
  obtain c1 h2 where r1: "readl io h1 REG_CONTROL = (c1, h2)" by fastforce
  define c2 where "c2 = (if clk_mode spi \<noteq> 0 then c1 OR CONTROL_CLKMODE
                         else c1 AND NOT CONTROL_CLKMODE)"
  define cfg where "cfg = [Readl REG_CONTROL c0, Writel REG_CONTROL (c0 AND NOT CONTROL_ENABLE),
      Readl REG_CONTROL c1, Writel REG_CLK_GEN (clk_gen spi), Writel REG_CONTROL c2,
      Writel REG_CONTROL (c2 OR CONTROL_ENABLE)]"
  have eq: "mchp_corespi_set_clk_gen io spi =
      spi\<lparr>regs := writel io (c2 OR CONTROL_ENABLE)
                      (writel io c2 (writel io (clk_gen spi) h2 REG_CLK_GEN) REG_CONTROL) REG_CONTROL,
          trace := trace spi @ cfg\<rparr>"
    by (simp add: mchp_corespi_set_clk_gen_def mchp_corespi_disable_def mchp_corespi_read_def
          mchp_corespi_write_def r0 r1 h1_def[symmetric] Let_def c2_def cfg_def)
  have obs: "list_all (\<lambda>e. \<not> fifo_event e) cfg \<and> finalized cfg = 0 \<and>
     filter (\<lambda>e. \<exists>v. e = Writel REG_FRAMESUP v) cfg = []"
    by (simp add: cfg_def reg_consts)
  show ?thesis
    by (rule exI[of _ cfg], rule exI, rule conjI, rule eq, rule obs)
qed

lemma transfer_one_spec:
  fixes spi :: "'h mchp_corespi" and io :: "'h iomem"
  assumes clkgen: "mchp_corespi_calculate_clkgen (ucast (speed_hz xfer)) spi = Inr spic"
  shows "\<exists>cfg c0 c1 c2 pushes spi'.
     mchp_corespi_transfer_one io xfer spi = (Inr 1, spi') \<and>
     trace spi' = trace spi @ cfg @
        (if len xfer = 0 then [] else xfer_size_events c0 c1 c2 @ pushes) \<and>
     list_all (\<lambda>e. \<not> fifo_event e) cfg \<and> finalized cfg = 0 \<and>
     length (filter (\<lambda>e. \<exists>v. e = Writel REG_FRAMESUP v) cfg) = 1 \<and>
     list_all fill_event pushes \<and> (len xfer = 0 \<longrightarrow> pushes = []) \<and>
     int (length (tx_writes pushes)) \<le> max 0 (min (sint (len xfer)) FIFO_DEPTH) \<and>
     tx_len spi' = sint (len xfer) - int (length (tx_writes pushes)) \<and>
     rx_len spi' = sint (len xfer) \<and>
     pending spi' = int (length (tx_writes pushes)) \<and>
     rx_buf spi' = xfer_rx_buf xfer \<and> ram spi' = ram spi \<and>
     clk spi' = clk spi \<and> clk_gen spi' = clk_gen spic \<and> clk_mode spi' = clk_mode spic \<and>
     irq spi' = irq spi"
proof -
  have spic: "regs spic = regs spi" "trace spic = trace spi" "ram spic = ram spi"
    "clk spic = clk spi" "irq spic = irq spi"
    using clkgen by (auto simp: mchp_corespi_calculate_clkgen_def Let_def split: if_splits)
  from set_clk_gen_spec[of io spic] obtain cfg1 h1 where
    c: "mchp_corespi_set_clk_gen io spic = spic\<lparr>regs := h1, trace := trace spic @ cfg1\<rparr>"
       "list_all (\<lambda>e. \<not> fifo_event e) cfg1" "finalized cfg1 = 0"
       "filter (\<lambda>e. \<exists>v. e = Writel REG_FRAMESUP v) cfg1 = []"
    by blast
  define L where "L = sint (len xfer)"
  define s2 where "s2 = mchp_corespi_set_clk_gen io spic"
  define s3 where "s3 = s2\<lparr>tx_buf := xfer_tx_buf xfer, rx_buf := xfer_rx_buf xfer,
      tx_len := sint (len xfer), rx_len := sint (len xfer), pending := 0\<rparr>"
  define s4 where "s4 = mchp_corespi_set_xfer_size io
      (if tx_len s3 > FIFO_DEPTH then FIFO_DEPTH else tx_len s3) s3"
  define s5 where "s5 = (if tx_len s4 \<noteq> 0 then mchp_corespi_write_fifo io s4 else s4)"
  have t1: "mchp_corespi_transfer_one io xfer spi = (Inr 1, s5)"
    by (simp add: mchp_corespi_transfer_one_def clkgen Let_def s5_def s4_def s3_def s2_def)
  from set_xfer_size_spec[of io "if tx_len s3 > FIFO_DEPTH then FIFO_DEPTH else tx_len s3" s3]
  obtain d0 d1 d2 h2 where
    x: "s4 = s3\<lparr>regs := h2, trace := trace s3 @ xfer_size_events d0 d1 d2\<rparr>"
    unfolding s4_def by blast
  define cfg where "cfg = cfg1 @ xfer_size_events d0 d1 d2"
  have L0: "(L = 0) = (len xfer = 0)" unfolding L_def by (metis sint_0 signed_eq_0_iff)
  have s4f: "tx_len s4 = L" "rx_len s4 = L" "pending s4 = 0" "rx_buf s4 = xfer_rx_buf xfer"
    "ram s4 = ram spi" "clk s4 = clk spi" "clk_gen s4 = clk_gen spic" "clk_mode s4 = clk_mode spic"
    "irq s4 = irq spi" "trace s4 = trace spi @ cfg"
    by (simp_all add: x s3_def s2_def c(1) spic cfg_def L_def)
  from fill_step[where spi=s4 and io=io] obtain c0 c1 c2 pushes where
    p: "trace s5 = trace s4 @ (if tx_len s4 = 0 then [] else xfer_size_events c0 c1 c2 @ pushes)"
       "list_all fill_event pushes" "tx_len s4 = 0 \<longrightarrow> pushes = []"
       "int (length (tx_writes pushes)) \<le> max 0 (min (tx_len s4) FIFO_DEPTH)"
       "tx_len s5 = tx_len s4 - int (length (tx_writes pushes))"
       "pending s5 = pending s4 + int (length (tx_writes pushes))"
       "clk s5 = clk s4 \<and> rx_buf s5 = rx_buf s4 \<and> ram s5 = ram s4 \<and>
        clk_gen s5 = clk_gen s4 \<and> clk_mode s5 = clk_mode s4 \<and> irq s5 = irq s4 \<and>
        rx_len s5 = rx_len s4"
    unfolding s5_def[symmetric] by blast
  have A: "trace s5 = trace spi @ cfg @ (if len xfer = 0 then [] else xfer_size_events c0 c1 c2 @ pushes)"
    using p(1) s4f L0 by simp
  have B: "list_all (\<lambda>e. \<not> fifo_event e) cfg" "finalized cfg = 0"
    "length (filter (\<lambda>e. \<exists>v. e = Writel REG_FRAMESUP v) cfg) = 1"
    using c by (simp_all add: cfg_def) (simp add: xfer_size_events_def reg_consts)
  have C: "len xfer = 0 \<longrightarrow> pushes = []"
    "int (length (tx_writes pushes)) \<le> max 0 (min (sint (len xfer)) FIFO_DEPTH)"
    "tx_len s5 = sint (len xfer) - int (length (tx_writes pushes))"
    "rx_len s5 = sint (len xfer)" "pending s5 = int (length (tx_writes pushes))"
    "rx_buf s5 = xfer_rx_buf xfer" "ram s5 = ram spi" "clk s5 = clk spi"
    "clk_gen s5 = clk_gen spic" "clk_mode s5 = clk_mode spic" "irq s5 = irq spi"
    using p s4f L0 by (simp_all add: L_def)
  show ?thesis
    by (rule exI[of _ cfg], rule exI[of _ c0], rule exI[of _ c1], rule exI[of _ c2],
        rule exI[of _ pushes], rule exI[of _ s5])
       (intro conjI t1 A B p(2) C)
qed

subsection \<open>The counters over a session\<close>

lemma drain_events_obs:
  assumes "list_all drain_event evs"
  shows "tx_writes evs = [] \<and> finalized evs = 0 \<and>
         filter (\<lambda>e. \<exists>v. e = Writel REG_FRAMESUP v) evs = []"
  using assms
proof (induction evs)
  case Nil then show ?case by simp
next
  case (Cons e evs)
  then show ?case by (cases e) auto
qed

lemma fill_events_obs:
  assumes "list_all fill_event evs"
  shows "rx_reads evs = [] \<and> finalized evs = 0 \<and>
         filter (\<lambda>e. \<exists>v. e = Writel REG_FRAMESUP v) evs = []"
  using assms
proof (induction evs)
  case Nil then show ?case by simp
next
  case (Cons e evs)
  then show ?case by (cases e) (auto simp: reg_consts)
qed

lemma transfer_one_accepts:
  assumes "mchp_corespi_transfer_one io xfer spi = (Inr r, spi')"
  shows "\<exists>spic. mchp_corespi_calculate_clkgen (ucast (speed_hz xfer)) spi = Inr spic"
  using assms by (auto simp: mchp_corespi_transfer_one_def split: sum.splits)

lemma session_counters_generic:
  fixes spi0 :: "'h mchp_corespi"
  assumes "session io env xfer spi0 spi"
  shows "\<exists>evs. trace spi = trace spi0 @ evs \<and>
     pending spi = int (length (tx_writes evs)) - int (length (rx_reads evs)) \<and>
     pending spi = rx_len spi - tx_len spi \<and>
     rx_len spi \<le> sint (len xfer) \<and> tx_len spi \<le> sint (len xfer) \<and>
     (0 \<le> sint (len xfer) \<longrightarrow> 0 \<le> tx_len spi \<and> 0 \<le> rx_len spi)"
  using assms
proof (induction rule: session.induct)
  case (session_begin r spi)
  from transfer_one_accepts[OF session_begin] obtain spic where
    "mchp_corespi_calculate_clkgen (ucast (speed_hz xfer)) spi0 = Inr spic" by blast
  from transfer_one_spec[OF this, of io] session_begin obtain cfg c0 c1 c2 pushes where
    t: "trace spi = trace spi0 @ cfg @
          (if len xfer = 0 then [] else xfer_size_events c0 c1 c2 @ pushes)"
       "list_all (\<lambda>e. \<not> fifo_event e) cfg" "list_all fill_event pushes"
       "len xfer = 0 \<longrightarrow> pushes = []"
       "int (length (tx_writes pushes)) \<le> max 0 (min (sint (len xfer)) FIFO_DEPTH)"
       "tx_len spi = sint (len xfer) - int (length (tx_writes pushes))"
       "rx_len spi = sint (len xfer)" "pending spi = int (length (tx_writes pushes))"
    by auto
  show ?case
    apply (rule exI[of _ "cfg @ (if len xfer = 0 then [] else xfer_size_events c0 c1 c2 @ pushes)"])
    using t not_fifo_obs[OF t(2)] fill_events_obs[OF t(3)]
    by (auto simp: FIFO_DEPTH_def)
next
  case (session_hw spi h)
  then show ?case by simp
next
  case (session_irq spi r spi')
  obtain mis h where mis: "readl io (regs spi) REG_MIS = (mis, h)" by fastforce
  from session_irq.IH obtain evs where
    e: "trace spi = trace spi0 @ evs"
       "pending spi = int (length (tx_writes evs)) - int (length (rx_reads evs))"
       "pending spi = rx_len spi - tx_len spi"
       "rx_len spi \<le> sint (len xfer)" "tx_len spi \<le> sint (len xfer)"
       "0 \<le> sint (len xfer) \<longrightarrow> 0 \<le> tx_len spi \<and> 0 \<le> rx_len spi"
    by blast
  from interrupt_spec[OF mis session_irq.hyps(2)] obtain drain c0 c1 c2 pushes where
    s: "trace spi' = trace spi @ Readl REG_MIS mis #
        (if mis AND 0xf = 0 then []
         else (if (mis AND 0xf) AND INT_TXDONE \<noteq> 0
               then Writel REG_INT_CLEAR INT_TXDONE # drain @
                      (if tx_len spi = 0 then [] else xfer_size_events c0 c1 c2 @ pushes)
               else []) @
              fault_events (mis AND 0xf) (rx_len spi') (tx_len spi') @
              (if ((mis AND 0xf) AND INT_TXDONE \<noteq> 0 \<and> rx_len spi' = 0) \<or> fault_cause (mis AND 0xf)
               then [Finalize] else []))"
     "(mis AND 0xf) AND INT_TXDONE = 0 \<longrightarrow> drain = [] \<and> pushes = []"
     "rx_len spi = 0 \<longrightarrow> drain = []" "tx_len spi = 0 \<longrightarrow> pushes = []"
     "list_all drain_event drain" "list_all fill_event pushes"
     "int (length (rx_reads drain)) \<le> max 0 (min (rx_len spi) FIFO_DEPTH)"
     "int (length (tx_writes pushes)) \<le> max 0 (min (tx_len spi) FIFO_DEPTH)"
     "rx_len spi' = rx_len spi - int (length (rx_reads drain))"
     "tx_len spi' = tx_len spi - int (length (tx_writes pushes))"
     "pending spi' = pending spi - int (length (rx_reads drain)) + int (length (tx_writes pushes))"
    by blast
  define new where "new = Readl REG_MIS mis #
        (if mis AND 0xf = 0 then []
         else (if (mis AND 0xf) AND INT_TXDONE \<noteq> 0
               then Writel REG_INT_CLEAR INT_TXDONE # drain @
                      (if tx_len spi = 0 then [] else xfer_size_events c0 c1 c2 @ pushes)
               else []) @
              fault_events (mis AND 0xf) (rx_len spi') (tx_len spi') @
              (if ((mis AND 0xf) AND INT_TXDONE \<noteq> 0 \<and> rx_len spi' = 0) \<or> fault_cause (mis AND 0xf)
               then [Finalize] else []))"
  have tw: "tx_writes new = tx_writes pushes" and rr: "rx_reads new = rx_reads drain"
    using s(2,4) drain_events_obs[OF s(5)] fill_events_obs[OF s(6)]
    by (auto simp: new_def reg_consts)
  show ?case
    apply (rule exI[of _ "evs @ new"])
    using e s(7-11) tw rr s(1)[folded new_def]
    by (auto simp: FIFO_DEPTH_def)
qed

lemma interrupt_finalized:
  fixes spi :: "'h mchp_corespi"
  assumes mis: "readl io (regs spi) REG_MIS = (mis, h)"
    and run: "mchp_corespi_interrupt io spi = (r, spi')"
  shows "finalized (since spi spi') =
     (if ((mis AND 0xf) AND INT_TXDONE \<noteq> 0 \<and> rx_len spi' = 0) \<or> fault_cause (mis AND 0xf)
      then 1 else 0)"
proof -
  from interrupt_spec[OF mis run] obtain drain c0 c1 c2 pushes where
    s: "trace spi' = trace spi @ Readl REG_MIS mis #
        (if mis AND 0xf = 0 then []
         else (if (mis AND 0xf) AND INT_TXDONE \<noteq> 0
               then Writel REG_INT_CLEAR INT_TXDONE # drain @
                      (if tx_len spi = 0 then [] else xfer_size_events c0 c1 c2 @ pushes)
               else []) @
              fault_events (mis AND 0xf) (rx_len spi') (tx_len spi') @
              (if ((mis AND 0xf) AND INT_TXDONE \<noteq> 0 \<and> rx_len spi' = 0) \<or> fault_cause (mis AND 0xf)
               then [Finalize] else []))"
     "list_all drain_event drain" "list_all fill_event pushes"
    by blast
  have z: "mis AND 0xf = 0 \<Longrightarrow> \<not> fault_cause (mis AND 0xf) \<and> (mis AND 0xf) AND INT_TXDONE = 0"
    by (simp add: fault_cause_def)
  have "since spi spi' = Readl REG_MIS mis #
        (if mis AND 0xf = 0 then []
         else (if (mis AND 0xf) AND INT_TXDONE \<noteq> 0
               then Writel REG_INT_CLEAR INT_TXDONE # drain @
                      (if tx_len spi = 0 then [] else xfer_size_events c0 c1 c2 @ pushes)
               else []) @
              fault_events (mis AND 0xf) (rx_len spi') (tx_len spi') @
              (if ((mis AND 0xf) AND INT_TXDONE \<noteq> 0 \<and> rx_len spi' = 0) \<or> fault_cause (mis AND 0xf)
               then [Finalize] else []))"
    using s(1) by (rule since_append)
  then show ?thesis
    using drain_events_obs[OF s(2)] fill_events_obs[OF s(3)] z by auto
qed

subsection \<open>A transfer of length zero\<close>

lemma session_zero_length:
  fixes spi0 :: "'h mchp_corespi"
  assumes zero: "len xfer = 0" and "session io env xfer spi0 spi"
  shows "\<exists>evs. trace spi = trace spi0 @ evs \<and> list_all (\<lambda>e. \<not> fifo_event e) evs \<and>
     length (filter (\<lambda>e. \<exists>v. e = Writel REG_FRAMESUP v) evs) = 1 \<and>
     tx_len spi = 0 \<and> rx_len spi = 0 \<and> pending spi = 0"
  using assms(2)
proof (induction rule: session.induct)
  case (session_begin r spi)
  from transfer_one_accepts[OF session_begin] obtain spic where
    "mchp_corespi_calculate_clkgen (ucast (speed_hz xfer)) spi0 = Inr spic" by blast
  from transfer_one_spec[OF this, of io] session_begin obtain cfg c0 c1 c2 pushes where
    t: "trace spi = trace spi0 @ cfg @
          (if len xfer = 0 then [] else xfer_size_events c0 c1 c2 @ pushes)"
       "list_all (\<lambda>e. \<not> fifo_event e) cfg"
       "length (filter (\<lambda>e. \<exists>v. e = Writel REG_FRAMESUP v) cfg) = 1"
       "len xfer = 0 \<longrightarrow> pushes = []"
       "tx_len spi = sint (len xfer) - int (length (tx_writes pushes))"
       "rx_len spi = sint (len xfer)" "pending spi = int (length (tx_writes pushes))"
    by auto
  show ?case
    by (rule exI[of _ cfg]) (use t zero in simp)
next
  case (session_hw spi h)
  then show ?case by simp
next
  case (session_irq spi r spi')
  obtain mis h where mis: "readl io (regs spi) REG_MIS = (mis, h)" by fastforce
  from session_irq.IH obtain evs where
    e: "trace spi = trace spi0 @ evs" "list_all (\<lambda>e. \<not> fifo_event e) evs"
       "length (filter (\<lambda>e. \<exists>v. e = Writel REG_FRAMESUP v) evs) = 1"
       "tx_len spi = 0" "rx_len spi = 0" "pending spi = 0"
    by blast
  from interrupt_spec[OF mis session_irq.hyps(2)] obtain drain c0 c1 c2 pushes where
    s: "trace spi' = trace spi @ Readl REG_MIS mis #
        (if mis AND 0xf = 0 then []
         else (if (mis AND 0xf) AND INT_TXDONE \<noteq> 0
               then Writel REG_INT_CLEAR INT_TXDONE # drain @
                      (if tx_len spi = 0 then [] else xfer_size_events c0 c1 c2 @ pushes)
               else []) @
              fault_events (mis AND 0xf) (rx_len spi') (tx_len spi') @
              (if ((mis AND 0xf) AND INT_TXDONE \<noteq> 0 \<and> rx_len spi' = 0) \<or> fault_cause (mis AND 0xf)
               then [Finalize] else []))"
     "rx_len spi = 0 \<longrightarrow> drain = []" "tx_len spi = 0 \<longrightarrow> pushes = []"
     "rx_len spi' = rx_len spi - int (length (rx_reads drain))"
     "tx_len spi' = tx_len spi - int (length (tx_writes pushes))"
     "pending spi' = pending spi - int (length (rx_reads drain)) + int (length (tx_writes pushes))"
    by blast
  define new where "new = Readl REG_MIS mis #
        (if mis AND 0xf = 0 then []
         else (if (mis AND 0xf) AND INT_TXDONE \<noteq> 0 then [Writel REG_INT_CLEAR INT_TXDONE] else []) @
              fault_events (mis AND 0xf) (rx_len spi') (tx_len spi') @
              (if ((mis AND 0xf) AND INT_TXDONE \<noteq> 0 \<and> rx_len spi' = 0) \<or> fault_cause (mis AND 0xf)
               then [Finalize] else []))"
  have tr: "trace spi' = trace spi0 @ evs @ new"
    using s(1,2,3) e by (simp add: new_def)
  have nf: "list_all (\<lambda>e. \<not> fifo_event e) new"
    by (simp add: new_def reg_consts)
  have fs: "filter (\<lambda>e. \<exists>v. e = Writel REG_FRAMESUP v) new = []"
    by (simp add: new_def fault_events_def reg_consts)
  show ?case
    by (rule exI[of _ "evs @ new"]) (use tr nf fs e s in simp)
qed

text \<open>
  Claim C9, as the code has it. \<open>mchp_corespi_transfer_one\<close> has no check on the
  length: with a length of 0 it returns 1 (transfer in progress) whenever the clock
  divider is found, and it does not finalize the transfer. In every state of the
  session that follows, whatever the hardware does, the three counters are 0, so the
  handler's guards \<open>if (spi->rx_len)\<close> and \<open>if (spi->tx_len)\<close> skip the drain and the
  fill; since the call, no STATUS, RX_DATA or TX_DATA access has been made, and
  FRAMESUP has been written once, by the call itself (a fill would write it again). An
  interrupt finalizes the transfer exactly when it carries the transfer-done cause or a
  fault cause; nothing else does.
\<close>

theorem zero_length_transfer:
  fixes spi0 :: "'h mchp_corespi"
  assumes zero: "len xfer = 0"
    and clkgen: "mchp_corespi_calculate_clkgen (ucast (speed_hz xfer)) spi0 = Inr spic"
  shows "fst (mchp_corespi_transfer_one io xfer spi0) = Inr 1 \<and>
     finalized (since spi0 (snd (mchp_corespi_transfer_one io xfer spi0))) = 0 \<and>
     (\<forall>spi. session io env xfer spi0 spi \<longrightarrow>
        tx_len spi = 0 \<and> rx_len spi = 0 \<and> pending spi = 0 \<and>
        rx_reads (since spi0 spi) = [] \<and> tx_writes (since spi0 spi) = [] \<and>
        list_all (\<lambda>e. \<not> fifo_event e) (since spi0 spi) \<and>
        length (filter (\<lambda>e. \<exists>v. e = Writel REG_FRAMESUP v) (since spi0 spi)) = 1 \<and>
        (\<forall>r spi'. mchp_corespi_interrupt io spi = (r, spi') \<longrightarrow>
            finalized (since spi spi') =
              (if (fst (readl io (regs spi) REG_MIS) AND 0xf) AND INT_TXDONE \<noteq> 0 \<or>
                  fault_cause (fst (readl io (regs spi) REG_MIS) AND 0xf)
               then 1 else 0)))"
proof (intro conjI allI impI)
  from transfer_one_spec[OF clkgen, of io] show "fst (mchp_corespi_transfer_one io xfer spi0) = Inr 1"
    by auto
next
  from transfer_one_spec[OF clkgen, of io] obtain cfg c0 c1 c2 pushes spi' where
    t: "mchp_corespi_transfer_one io xfer spi0 = (Inr 1, spi')"
       "trace spi' = trace spi0 @ cfg @
          (if len xfer = 0 then [] else xfer_size_events c0 c1 c2 @ pushes)"
       "finalized cfg = 0"
    by blast
  have "since spi0 spi' = cfg" using t(2) zero by (intro since_append) simp
  then show "finalized (since spi0 (snd (mchp_corespi_transfer_one io xfer spi0))) = 0"
    using t(1,3) by simp
next
  fix spi assume sess: "session io env xfer spi0 spi"
  from session_zero_length[OF zero sess] obtain evs where
    e: "trace spi = trace spi0 @ evs" "list_all (\<lambda>e. \<not> fifo_event e) evs"
       "length (filter (\<lambda>e. \<exists>v. e = Writel REG_FRAMESUP v) evs) = 1"
       "tx_len spi = 0" "rx_len spi = 0" "pending spi = 0"
    by blast
  have since: "since spi0 spi = evs" using e(1) by simp
  show "tx_len spi = 0" "rx_len spi = 0" "pending spi = 0" by (rule e(4) e(5) e(6))+
  show "rx_reads (since spi0 spi) = []" "tx_writes (since spi0 spi) = []"
    using not_fifo_obs[OF e(2)] by (simp_all add: since)
  show "list_all (\<lambda>e. \<not> fifo_event e) (since spi0 spi)" using e(2) by (simp add: since)
  show "length (filter (\<lambda>e. \<exists>v. e = Writel REG_FRAMESUP v) (since spi0 spi)) = 1"
    using e(3) by (simp add: since)
  fix r spi'
  assume run: "mchp_corespi_interrupt io spi = (r, spi')"
  obtain mis h where mis: "readl io (regs spi) REG_MIS = (mis, h)" by fastforce
  from interrupt_spec[OF mis run] obtain drain where
    s: "rx_len spi = 0 \<longrightarrow> drain = []"
       "rx_len spi' = rx_len spi - int (length (rx_reads drain))"
    by blast
  have rx': "rx_len spi' = 0" using s e(5) by simp
  have "finalized (since spi spi') =
     (if ((mis AND 0xf) AND INT_TXDONE \<noteq> 0 \<and> rx_len spi' = 0) \<or> fault_cause (mis AND 0xf)
      then 1 else 0)"
    by (rule interrupt_finalized[OF mis run])
  then show "finalized (since spi spi') =
              (if (fst (readl io (regs spi) REG_MIS) AND 0xf) AND INT_TXDONE \<noteq> 0 \<or>
                  fault_cause (fst (readl io (regs spi) REG_MIS) AND 0xf)
               then 1 else 0)"
    by (simp add: mis rx')
qed

theorem zero_length_transfer_witness:
  "len xfer0 = 0 \<and>
   mchp_corespi_calculate_clkgen (ucast (speed_hz xfer0)) spi_20MHz
     = Inr (spi_20MHz\<lparr>clk_mode := 1, clk_gen := 9\<rparr>) \<and>
   fst (mchp_corespi_transfer_one corespi xfer0 spi_20MHz) = Inr 1 \<and>
   session corespi bus_activity xfer0 spi_20MHz
     (snd (mchp_corespi_transfer_one corespi xfer0 spi_20MHz)) \<and>
   tx_writes (trace (snd (mchp_corespi_transfer_one corespi xfer0 spi_20MHz))) = [] \<and>
   pending (snd (mchp_corespi_transfer_one corespi xfer0 spi_20MHz)) = 0"
proof -
  have z: "len xfer0 = 0" by (simp add: xfer0_def)
  have c: "mchp_corespi_calculate_clkgen (ucast (speed_hz xfer0)) spi_20MHz
     = Inr (spi_20MHz\<lparr>clk_mode := 1, clk_gen := 9\<rparr>)"
    by (simp add: xfer0_def spi_20MHz_def clk_eval)
  have f: "fst (mchp_corespi_transfer_one corespi xfer0 spi_20MHz) = Inr 1"
    using zero_length_transfer[OF z c] by simp
  have s: "session corespi bus_activity xfer0 spi_20MHz
     (snd (mchp_corespi_transfer_one corespi xfer0 spi_20MHz))"
    by (rule session_begin[where r=1]) (simp add: f[symmetric])
  have t: "trace spi_20MHz = []" by (simp add: spi_20MHz_def)
  from zero_length_transfer[OF z c, of corespi bus_activity] s
  have "tx_writes (since spi_20MHz (snd (mchp_corespi_transfer_one corespi xfer0 spi_20MHz))) = []"
    "pending (snd (mchp_corespi_transfer_one corespi xfer0 spi_20MHz)) = 0"
    by blast+
  then show ?thesis using z c f s t by (simp add: since_def)
qed

text \<open>
  Claim C9 as the specification words it fails: the transfer of no bytes does not
  complete with the call. On the idle controller \<open>mchp_corespi_transfer_one\<close> returns 1
  and nothing is finalized, and an interrupt that finds no cause raised, as on a bus
  that has nothing to shift, returns \<open>IRQ_NONE\<close> and finalizes nothing either.
\<close>

theorem zero_length_transfer_counterexample:
  "(case mchp_corespi_transfer_one corespi xfer0 spi_20MHz of
      (r1, s1) \<Rightarrow> r1 = Inr 1 \<and> finalized (trace s1) = 0 \<and>
        (case mchp_corespi_interrupt corespi s1 of
           (r2, s2) \<Rightarrow> r2 = IRQ_NONE \<and> finalized (trace s2) = 0))"
  by (simp add: xfer0_def mchp_corespi_transfer_one_def mchp_corespi_set_clk_gen_def
        clk_eval irq_defs run_defs reg_consts bit_consts)

subsection \<open>The driver on the model of the controller\<close>

lemma hw_status_flags:
  "(hw_status h AND STATUS_RXFIFO_EMPTY = 0) = (rx_fifo h \<noteq> [])"
  "(hw_status h AND STATUS_TXFIFO_FULL = 0) = (length (tx_fifo h) < 32)"
  by (auto simp: hw_status_def bit_consts)

lemma corespi_read_fifos:
  assumes "mchp_corespi_read corespi reg spi = (v, s)" "reg \<noteq> REG_RX_DATA"
  shows "rx_fifo (regs s) = rx_fifo (regs spi) \<and> tx_fifo (regs s) = tx_fifo (regs spi) \<and>
         pending s = pending spi"
  using assms by (auto simp: mchp_corespi_read_def corespi_def hw_readl_def split: if_splits)

lemma corespi_read_status:
  assumes "mchp_corespi_read corespi REG_STATUS spi = (v, s)"
  shows "v = hw_status (regs spi) \<and> regs s = regs spi"
  using assms by (auto simp: mchp_corespi_read_def corespi_def hw_readl_def reg_consts)

lemma corespi_write_fifos:
  assumes "reg \<noteq> REG_TX_DATA"
  shows "rx_fifo (regs (mchp_corespi_write corespi reg v spi)) = rx_fifo (regs spi) \<and>
         tx_fifo (regs (mchp_corespi_write corespi reg v spi)) = tx_fifo (regs spi)"
  using assms by (auto simp: mchp_corespi_write_def corespi_def hw_writel_def)

lemma corespi_read_fifo_loop:
  assumes "read_fifo_loop corespi fifo_max i spi = (j, spi')"
  shows "int (length (rx_fifo (regs spi'))) = int (length (rx_fifo (regs spi))) - (j - i) \<and>
         tx_fifo (regs spi') = tx_fifo (regs spi)"
proof (rule read_fifo_loop_invariant[OF assms], goal_cases)
  case 1
  then show ?case by simp
next
  case (2 k s st s1 v s2)
  from corespi_read_status[OF 2(3)] 2(4) have ne: "rx_fifo (regs s1) \<noteq> []" "regs s1 = regs s"
    by (simp_all add: hw_status_flags)
  from 2(5) ne have "int (length (rx_fifo (regs s2))) = int (length (rx_fifo (regs s1))) - 1"
    "tx_fifo (regs s2) = tx_fifo (regs s1)"
    by (auto simp: mchp_corespi_read_def corespi_def hw_readl_def split: list.splits)
  moreover have "regs (store_rx (ucast v) s2) = regs s2"
    by (simp add: store_rx_def split: option.splits)
  ultimately show ?case using 2(1) ne by simp
next
  case (3 k s st s1)
  from corespi_read_status[OF 3(3)] 3(1) show ?case by simp
qed

lemma corespi_write_fifo_loop:
  assumes "write_fifo_loop corespi fifo_max i spi = (j, spi')"
  shows "int (length (tx_fifo (regs spi'))) = int (length (tx_fifo (regs spi))) + (j - i) \<and>
         rx_fifo (regs spi') = rx_fifo (regs spi)"
proof (rule write_fifo_loop_invariant[OF assms], goal_cases)
  case 1
  then show ?case by simp
next
  case (2 k s st s1 byte s2)
  from corespi_read_status[OF 2(3)] 2(4) have room: "length (tx_fifo (regs s1)) < 32" "regs s1 = regs s"
    by (simp_all add: hw_status_flags)
  have "regs s2 = regs s1" using 2(5) by (auto simp: next_tx_byte_def split: option.splits)
  with room show ?case using 2(1)
    by (simp add: mchp_corespi_write_def corespi_def hw_writel_def)
next
  case (3 k s st s1)
  from corespi_read_status[OF 3(3)] 3(1) show ?case by simp
qed

lemma reg_not_fifo [simp]:
  "REG_CONTROL \<noteq> REG_RX_DATA" "REG_CONTROL \<noteq> REG_TX_DATA"
  "REG_FRAMESUP \<noteq> REG_TX_DATA" "REG_CLK_GEN \<noteq> REG_TX_DATA"
  "REG_MIS \<noteq> REG_RX_DATA" "REG_INT_CLEAR \<noteq> REG_TX_DATA"
  by (simp_all add: reg_consts)

lemma wire_read [simp]:
  "reg \<noteq> REG_RX_DATA \<Longrightarrow> on_the_wire (snd (mchp_corespi_read corespi reg spi)) = on_the_wire spi"
  by (auto simp: on_the_wire_def mchp_corespi_read_def corespi_def hw_readl_def split: prod.splits)

lemma wire_write [simp]:
  "reg \<noteq> REG_TX_DATA \<Longrightarrow> on_the_wire (mchp_corespi_write corespi reg v spi) = on_the_wire spi"
  by (auto simp: on_the_wire_def mchp_corespi_write_def corespi_def hw_writel_def)

lemma wire_disable [simp]: "on_the_wire (mchp_corespi_disable corespi spi) = on_the_wire spi"
proof -
  obtain c s1 where r: "mchp_corespi_read corespi REG_CONTROL spi = (c, s1)" by fastforce
  then have "on_the_wire s1 = on_the_wire spi"
    using wire_read[of REG_CONTROL spi] by simp
  then show ?thesis by (simp add: mchp_corespi_disable_def r)
qed

lemma wire_set_xfer_size [simp]:
  "on_the_wire (mchp_corespi_set_xfer_size corespi n spi) = on_the_wire spi"
proof -
  obtain c s2 where r: "mchp_corespi_read corespi REG_CONTROL (mchp_corespi_disable corespi spi) = (c, s2)"
    by fastforce
  then have "on_the_wire s2 = on_the_wire spi"
    using wire_read[of REG_CONTROL "mchp_corespi_disable corespi spi"] by simp
  then show ?thesis by (simp add: mchp_corespi_set_xfer_size_def Let_def r)
qed

lemma wire_set_clk_gen:
  "on_the_wire (mchp_corespi_set_clk_gen corespi spi) = on_the_wire spi"
proof -
  obtain c s2 where r: "mchp_corespi_read corespi REG_CONTROL (mchp_corespi_disable corespi spi) = (c, s2)"
    by fastforce
  then have "on_the_wire s2 = on_the_wire spi"
    using wire_read[of REG_CONTROL "mchp_corespi_disable corespi spi"] by simp
  then show ?thesis by (simp add: mchp_corespi_set_clk_gen_def Let_def r)
qed

lemma wire_read_fifo [simp]:
  "on_the_wire (mchp_corespi_read_fifo corespi spi) = on_the_wire spi"
proof -
  obtain j s1 where run: "read_fifo_loop corespi (min (rx_len spi) FIFO_DEPTH) 0 spi = (j, s1)"
    by fastforce
  from corespi_read_fifo_loop[OF run] read_fifo_loop_fields[OF run] show ?thesis
    by (simp add: mchp_corespi_read_fifo_def run on_the_wire_def)
qed

lemma wire_write_fifo [simp]:
  "on_the_wire (mchp_corespi_write_fifo corespi spi) = on_the_wire spi"
proof -
  define s1 where "s1 = mchp_corespi_set_xfer_size corespi (min (tx_len spi) FIFO_DEPTH) spi"
  obtain j s2 where run: "write_fifo_loop corespi (min (tx_len spi) FIFO_DEPTH) 0 s1 = (j, s2)"
    by fastforce
  have w1: "on_the_wire s1 = on_the_wire spi" by (simp add: s1_def)
  from corespi_write_fifo_loop[OF run] write_fifo_loop_fields[OF run]
  have "on_the_wire (s2\<lparr>tx_len := tx_len s2 - j, pending := pending s2 + j\<rparr>) = on_the_wire s1"
    by (simp add: on_the_wire_def)
  then show ?thesis
    by (simp add: mchp_corespi_write_fifo_def Let_def s1_def[symmetric] run w1)
qed

lemma wire_interrupt:
  assumes "mchp_corespi_interrupt corespi spi = (r, spi')"
  shows "on_the_wire spi' = on_the_wire spi"
proof -
  obtain mis s0 where r: "mchp_corespi_read corespi REG_MIS spi = (mis, s0)" by fastforce
  then have w0: "on_the_wire s0 = on_the_wire spi"
    using wire_read[of REG_MIS spi] by simp
  have d: "on_the_wire (dev_err m s) = on_the_wire s" for m s
    by (simp add: dev_err_def on_the_wire_def)
  have f: "on_the_wire (spi_finalize_current_transfer s) = on_the_wire s" for s
    by (simp add: spi_finalize_current_transfer_def on_the_wire_def)
  from assms w0 show ?thesis
    by (auto simp: mchp_corespi_interrupt_def r Let_def irq_txdone_def irq_rxrdy_def
          irq_rx_overflow_def irq_tx_underrun_def d f split: if_splits)
qed

lemma wire_transfer_one:
  assumes "mchp_corespi_transfer_one corespi xfer spi = (Inr r, spi')"
  shows "on_the_wire spi' =
           - int (length (tx_fifo (regs spi))) - int (length (rx_fifo (regs spi)))"
proof -
  from transfer_one_accepts[OF assms] obtain spic where
    c: "mchp_corespi_calculate_clkgen (ucast (speed_hz xfer)) spi = Inr spic" by blast
  then have spic: "regs spic = regs spi"
    by (auto simp: mchp_corespi_calculate_clkgen_def Let_def split: if_splits)
  define s2 where "s2 = mchp_corespi_set_clk_gen corespi spic"
  define s3 where "s3 = s2\<lparr>tx_buf := xfer_tx_buf xfer, rx_buf := xfer_rx_buf xfer,
      tx_len := sint (len xfer), rx_len := sint (len xfer), pending := 0\<rparr>"
  have "pending s2 = pending spic"
    using set_clk_gen_spec[of corespi spic] by (auto simp: s2_def)
  moreover have "on_the_wire s2 = on_the_wire spic" by (simp add: s2_def wire_set_clk_gen)
  ultimately have "on_the_wire s3 =
      - int (length (tx_fifo (regs spi))) - int (length (rx_fifo (regs spi)))"
    by (simp add: s3_def on_the_wire_def spic)
  with assms show ?thesis
    by (auto simp: mchp_corespi_transfer_one_def c Let_def s2_def[symmetric] s3_def[symmetric]
          split: if_splits)
qed

lemma wire_bus_activity:
  assumes "bus_activity (regs spi) h"
  shows "on_the_wire spi \<le> on_the_wire (spi\<lparr>regs := h\<rparr>)"
  using assms by (auto simp: on_the_wire_def elim!: bus_activity.cases)

lemma session_on_the_wire:
  assumes "session corespi bus_activity xfer spi0 spi"
    and "rx_fifo (regs spi0) = []" "tx_fifo (regs spi0) = []"
  shows "0 \<le> on_the_wire spi"
  using assms
proof (induction rule: session.induct)
  case (session_begin r spi)
  with wire_transfer_one[OF session_begin(1)] show ?case by simp
next
  case (session_hw spi h)
  with wire_bus_activity[OF session_hw(2)] show ?case by simp
next
  case (session_irq spi r spi')
  with wire_interrupt[OF session_irq(2)] show ?case by simp
qed

subsection \<open>The counters of a session\<close>

lemma sint_small:
  fixes w :: "32 word"
  assumes "unat w \<le> 65535"
  shows "sint w = int (unat w)"
proof -
  have "int (unat w) \<le> 65535" using assms by linarith
  moreover have "uint w = int (unat w)" by simp
  ultimately have u: "uint w \<le> 65535" by (simp only:)
  have a: "- (2 ^ 31) \<le> uint w"
  proof -
    have "(- (2 ^ 31) :: int) \<le> 0" by simp
    also have "0 \<le> uint w" by simp
    finally show ?thesis .
  qed
  have b: "uint w < 2 ^ 31"
  proof -
    note u
    also have "(65535 :: int) < 2 ^ 31" by simp
    finally show ?thesis .
  qed
  have n: "LENGTH(32) - Suc 0 = 31" by simp
  have "sint w = signed_take_bit (LENGTH(32) - Suc 0) (uint w)" by (rule sint_uint)
  also have "\<dots> = signed_take_bit 31 (uint w)" by (simp only: n)
  also have "\<dots> = uint w" using a b by (rule signed_take_bit_int_eq_self)
  also have "\<dots> = int (unat w)" by simp
  finally show ?thesis .
qed

lemma interrupt_monotone:
  fixes spi :: "'h mchp_corespi"
  assumes "mchp_corespi_interrupt io spi = (r, spi')"
  shows "tx_len spi' \<le> tx_len spi \<and> rx_len spi' \<le> rx_len spi"
proof -
  obtain mis h where mis: "readl io (regs spi) REG_MIS = (mis, h)" by fastforce
  from interrupt_spec[OF mis assms] show ?thesis by auto
qed

text \<open>
  Claim C5, as the code has it, for a transfer length of at most 65535. In every state
  of a session, whatever the register block does: the remaining transmit and receive
  lengths lie between 0 and the transfer length, an interrupt never increases either
  of them (the hardware changes neither), and the in-flight count is the number of
  TX_DATA writes minus the number of RX_DATA reads since the transfer was started. The
  driver never flushes the FIFOs, so the rest needs them empty when the transfer is
  started: on the model of the controller, when both FIFOs are empty at the start of
  the transfer and the bus delivers at most one received frame per transmitted frame,
  the in-flight count is never negative (it is at least the number of frames in the
  two FIFOs), and when an interrupt without a fault cause finalizes the transfer, the
  two remaining lengths and the in-flight count are 0.
\<close>

theorem session_counters:
  fixes spi0 :: "'h mchp_corespi" and d0 :: "corespi_hw mchp_corespi"
  assumes len: "unat (len xfer) \<le> 65535"
  shows "(session io env xfer spi0 spi \<longrightarrow>
            0 \<le> tx_len spi \<and> tx_len spi \<le> int (unat (len xfer)) \<and>
            0 \<le> rx_len spi \<and> rx_len spi \<le> int (unat (len xfer)) \<and>
            pending spi = int (length (tx_writes (since spi0 spi)))
                            - int (length (rx_reads (since spi0 spi))) \<and>
            (\<forall>r spi'. mchp_corespi_interrupt io spi = (r, spi') \<longrightarrow>
               tx_len spi' \<le> tx_len spi \<and> rx_len spi' \<le> rx_len spi)) \<and>
         (session corespi bus_activity xfer d0 d \<and>
          rx_fifo (regs d0) = [] \<and> tx_fifo (regs d0) = [] \<longrightarrow>
            0 \<le> pending d \<and>
            int (length (tx_fifo (regs d))) + int (length (rx_fifo (regs d))) \<le> pending d \<and>
            (\<forall>r d'. mchp_corespi_interrupt corespi d = (r, d') \<and>
               finalized (since d d') = 1 \<and> \<not> fault_cause (reg_file (regs d) REG_MIS AND 0xf) \<longrightarrow>
               rx_len d' = 0 \<and> tx_len d' = 0 \<and> pending d' = 0))"
proof -
  have L: "sint (len xfer) = int (unat (len xfer))"
    using len by (rule sint_small)
  have A: "0 \<le> tx_len s \<and> tx_len s \<le> int (unat (len xfer)) \<and>
            0 \<le> rx_len s \<and> rx_len s \<le> int (unat (len xfer)) \<and>
            pending s = int (length (tx_writes (since s0 s))) - int (length (rx_reads (since s0 s))) \<and>
            pending s = rx_len s - tx_len s"
    if "session io' env' xfer s0 s" for io' :: "'x iomem" and env' s0 s
  proof -
    from session_counters_generic[OF that] obtain evs where
      e: "trace s = trace s0 @ evs"
       "pending s = int (length (tx_writes evs)) - int (length (rx_reads evs))"
       "pending s = rx_len s - tx_len s"
       "rx_len s \<le> sint (len xfer)" "tx_len s \<le> sint (len xfer)"
       "0 \<le> sint (len xfer) \<longrightarrow> 0 \<le> tx_len s \<and> 0 \<le> rx_len s"
      by blast
    have si: "since s0 s = evs" using e(1) by simp
    show ?thesis unfolding si using e(2-6) L by (intro conjI; linarith)
  qed
  have B: "0 \<le> pending s \<and>
           int (length (tx_fifo (regs s))) + int (length (rx_fifo (regs s))) \<le> pending s"
    if "session corespi bus_activity xfer s0 s" "rx_fifo (regs s0) = []" "tx_fifo (regs s0) = []"
    for s0 s
    using session_on_the_wire[OF that] unfolding on_the_wire_def by (intro conjI; linarith)
  show ?thesis
  proof (intro conjI impI allI)
    assume s: "session io env xfer spi0 spi"
    from A[OF s] show "0 \<le> tx_len spi" "tx_len spi \<le> int (unat (len xfer))"
      "0 \<le> rx_len spi" "rx_len spi \<le> int (unat (len xfer))"
      "pending spi = int (length (tx_writes (since spi0 spi)))
                            - int (length (rx_reads (since spi0 spi)))"
      by blast+
    fix r spi' assume "mchp_corespi_interrupt io spi = (r, spi')"
    from interrupt_monotone[OF this]
    show "tx_len spi' \<le> tx_len spi" "rx_len spi' \<le> rx_len spi" by simp_all
  next
    assume d: "session corespi bus_activity xfer d0 d \<and>
          rx_fifo (regs d0) = [] \<and> tx_fifo (regs d0) = []"
    then have sd: "session corespi bus_activity xfer d0 d"
      and idle: "rx_fifo (regs d0) = []" "tx_fifo (regs d0) = []" by simp_all
    from B[OF sd idle] show "0 \<le> pending d"
      "int (length (tx_fifo (regs d))) + int (length (rx_fifo (regs d))) \<le> pending d"
      by blast+
    fix r d'
    assume c: "mchp_corespi_interrupt corespi d = (r, d') \<and>
               finalized (since d d') = 1 \<and> \<not> fault_cause (reg_file (regs d) REG_MIS AND 0xf)"
    then have run: "mchp_corespi_interrupt corespi d = (r, d')" by simp
    have mis: "readl corespi (regs d) REG_MIS = (reg_file (regs d) REG_MIS, regs d)"
      by (simp add: corespi_def hw_readl_def reg_consts)
    define C where "C = (((reg_file (regs d) REG_MIS AND 0xf) AND INT_TXDONE \<noteq> 0 \<and> rx_len d' = 0)
        \<or> fault_cause (reg_file (regs d) REG_MIS AND 0xf))"
    have fin: "finalized (since d d') = (if C then 1 else 0)"
      unfolding C_def by (rule interrupt_finalized[OF mis run])
    have one: "finalized (since d d') = 1" and nofault: "\<not> fault_cause (reg_file (regs d) REG_MIS AND 0xf)"
      using c by blast+
    have C
    proof (rule ccontr)
      assume "\<not> C"
      then have "finalized (since d d') = 0" by (simp only: fin if_False)
      with one show False by linarith
    qed
    with nofault have rx0: "rx_len d' = 0" unfolding C_def by blast
    have sd': "session corespi bus_activity xfer d0 d'" by (rule session_irq[OF sd run])
    from A[OF sd'] have a: "0 \<le> tx_len d'" "pending d' = rx_len d' - tx_len d'" by blast+
    from B[OF sd' idle] have b: "0 \<le> pending d'" by blast
    show "rx_len d' = 0" by (rule rx0)
    from a b rx0 show "tx_len d' = 0" "pending d' = 0" by linarith+
  qed
qed

theorem session_counters_witness:
  "unat (len xfer40) \<le> 65535 \<and>
   session corespi bus_activity xfer40 spi_20MHz
     (snd (mchp_corespi_transfer_one corespi xfer40 spi_20MHz)) \<and>
   rx_fifo (regs spi_20MHz) = [] \<and> tx_fifo (regs spi_20MHz) = [] \<and>
   0 \<le> tx_len (snd (mchp_corespi_transfer_one corespi xfer40 spi_20MHz)) \<and>
   0 \<le> pending (snd (mchp_corespi_transfer_one corespi xfer40 spi_20MHz))"
proof -
  have l: "unat (len xfer40) \<le> 65535" by (simp add: xfer40_def)
  have c: "mchp_corespi_calculate_clkgen (ucast (speed_hz xfer40)) spi_20MHz
     = Inr (spi_20MHz\<lparr>clk_mode := 1, clk_gen := 9\<rparr>)"
    by (simp add: xfer40_def spi_20MHz_def clk_eval)
  from transfer_one_spec[OF c, where io=corespi]
  have f: "fst (mchp_corespi_transfer_one corespi xfer40 spi_20MHz) = Inr 1" by auto
  have s: "session corespi bus_activity xfer40 spi_20MHz
     (snd (mchp_corespi_transfer_one corespi xfer40 spi_20MHz))"
    by (rule session_begin[where r=1]) (simp add: f[symmetric])
  have i: "rx_fifo (regs spi_20MHz) = []" "tx_fifo (regs spi_20MHz) = []"
    by (simp_all add: spi_20MHz_def idle_hw_def)
  from session_counters[OF l, where io=corespi and env=bus_activity and ?spi0.0=spi_20MHz
      and spi="snd (mchp_corespi_transfer_one corespi xfer40 spi_20MHz)" and ?d0.0=spi_20MHz
      and d="snd (mchp_corespi_transfer_one corespi xfer40 spi_20MHz)"] s i
  have "0 \<le> tx_len (snd (mchp_corespi_transfer_one corespi xfer40 spi_20MHz))"
    "0 \<le> pending (snd (mchp_corespi_transfer_one corespi xfer40 spi_20MHz))"
    by blast+
  with l s i show ?thesis by simp
qed

lemma raise_txdone_activity:
  assumes "length (rx_fifo h) \<le> 32"
  shows "bus_activity h (raise_txdone h)"
  using bus_activity.intros[of 0 h "[]" INT_TXDONE] assms by (simp add: raise_txdone_def)

lemma interrupt_finalized_since:
  fixes spi :: "'h mchp_corespi"
  assumes "mchp_corespi_interrupt io spi = (r, spi')"
  shows "finalized (since spi spi') = finalized (trace spi') - finalized (trace spi)"
proof -
  obtain mis h where mis: "readl io (regs spi) REG_MIS = (mis, h)" by fastforce
  from interrupt_spec[OF mis assms] obtain evs where "trace spi' = trace spi @ evs"
    by blast
  then show ?thesis by (simp add: since_def)
qed

text \<open>
  Claim C5 as the specification words it fails when a transfer is started on a
  controller whose FIFOs are not empty. With two stale frames in the receive FIFO and
  a full transmit FIFO, the transfer of two bytes queues nothing; the transfer-done
  interrupt then drains the two stale frames, again queues nothing, and finalizes the
  transfer without a fault cause, with two bytes still to send and an in-flight count
  of -2.
\<close>

theorem session_counters_counterexample:
  "(case mchp_corespi_transfer_one corespi xfer2 spi_stale of
      (r1, s1) \<Rightarrow>
        (case mchp_corespi_interrupt corespi (s1\<lparr>regs := raise_txdone (regs s1)\<rparr>) of
           (r2, s2) \<Rightarrow>
             unat (len xfer2) \<le> 65535 \<and> r1 = Inr 1 \<and>
             bus_activity (regs s1) (raise_txdone (regs s1)) \<and>
             session corespi bus_activity xfer2 spi_stale s2 \<and>
             r2 = IRQ_HANDLED \<and> finalized (since s1 s2) = 1 \<and>
             \<not> fault_cause (reg_file (raise_txdone (regs s1)) REG_MIS AND 0xf) \<and>
             tx_len s2 = 2 \<and> rx_len s2 = 0 \<and> pending s2 = - 2))"
proof -
  obtain r1 s1 where t: "mchp_corespi_transfer_one corespi xfer2 spi_stale = (r1, s1)"
    by fastforce
  obtain r2 s2 where i: "mchp_corespi_interrupt corespi (s1\<lparr>regs := raise_txdone (regs s1)\<rparr>) = (r2, s2)"
    by fastforce
  have "(case mchp_corespi_transfer_one corespi xfer2 spi_stale of
      (r1, s1) \<Rightarrow>
        (case mchp_corespi_interrupt corespi (s1\<lparr>regs := raise_txdone (regs s1)\<rparr>) of
           (r2, s2) \<Rightarrow>
             r1 = Inr 1 \<and> length (rx_fifo (regs s1)) \<le> 32 \<and>
             r2 = IRQ_HANDLED \<and> finalized (trace s1) = 0 \<and> finalized (trace s2) = 1 \<and>
             \<not> fault_cause (reg_file (raise_txdone (regs s1)) REG_MIS AND 0xf) \<and>
             tx_len s2 = 2 \<and> rx_len s2 = 0 \<and> pending s2 = - 2))"
    by (simp add: xfer2_def spi_stale_def raise_txdone_def mchp_corespi_transfer_one_def
          mchp_corespi_set_clk_gen_def fault_cause_def
          clk_eval irq_defs run_defs reg_consts bit_consts)
  then have e: "r1 = Inr 1" "length (rx_fifo (regs s1)) \<le> 32"
      "r2 = IRQ_HANDLED" "finalized (trace s1) = 0" "finalized (trace s2) = 1"
      "\<not> fault_cause (reg_file (raise_txdone (regs s1)) REG_MIS AND 0xf)"
      "tx_len s2 = 2" "rx_len s2 = 0" "pending s2 = - 2"
    unfolding t i prod.case by (rule conjunct1 conjunct2[THEN conjunct1] | simp)+
  have f: "finalized (since s1 s2) = 1"
    using interrupt_finalized_since[OF i] e(4,5) by (simp add: since_def)
  have b: "bus_activity (regs s1) (raise_txdone (regs s1))"
    by (rule raise_txdone_activity[OF e(2)])
  have s1: "session corespi bus_activity xfer2 spi_stale s1"
    by (rule session_begin[where r=1]) (use t e(1) in simp)
  have s2: "session corespi bus_activity xfer2 spi_stale s2"
    by (rule session_irq[OF session_hw[OF s1 b] i])
  have l: "unat (len xfer2) \<le> 65535" by (simp add: xfer2_def)
  show ?thesis
    unfolding t i prod.case by (intro conjI l e(1) b s2 e(3) f e(6) e(7) e(8) e(9))
qed

section \<open>A transfer of 40 bytes over a loop-back wire\<close>

text \<open>
  Claim C6. The transfer \<open>xfer40\<close> (40 bytes \<open>0x01 .. 0x28\<close> at 1 MHz, received into
  the buffer at 200) is started on the idle controller with a source clock of 20 MHz,
  and the loop-back wire shifts the queued frames before each of two interrupts.
  \<open>mchp_corespi_transfer_one\<close> returns 1, selects clock mode 1 with the divider 9,
  whose rate is 1 MHz under the ratio \<open>2 * (d + 1)\<close>, and queues the first 32 bytes
  itself. The first interrupt stores these 32 bytes and queues the last 8; the second
  stores the last 8, queues nothing and completes the transfer, once. The receive
  buffer then holds \<open>0x01 .. 0x28\<close> and the three counters are zero.
\<close>

theorem transfer_40_loopback:
  "case mchp_corespi_transfer_one corespi xfer40 spi_20MHz of (r1, s1) \<Rightarrow>
   case mchp_corespi_interrupt corespi (s1\<lparr>regs := loopback (regs s1)\<rparr>) of (r2, s2) \<Rightarrow>
   case mchp_corespi_interrupt corespi (s2\<lparr>regs := loopback (regs s2)\<rparr>) of (r3, s3) \<Rightarrow>
     r1 = Inr 1 \<and> clk_mode s1 = 1 \<and> clk_gen s1 = 9 \<and>
     unat (clk s1) div (2 * (unat (clk_gen s1) + 1)) = 1000000 \<and>
     tx_writes (trace s1) = map of_nat [1..<33] \<and> finalized (trace s1) = 0 \<and>
     r2 = IRQ_HANDLED \<and> rx_reads (since s1 s2) = map of_nat [1..<33] \<and>
     tx_writes (since s1 s2) = map of_nat [33..<41] \<and> finalized (trace s2) = 0 \<and>
     r3 = IRQ_HANDLED \<and> rx_reads (since s2 s3) = map of_nat [33..<41] \<and>
     tx_writes (since s2 s3) = [] \<and> finalized (since s2 s3) = 1 \<and>
     map (ram s3) [200..<240] = map of_nat [1..<41] \<and>
     tx_len s3 = 0 \<and> rx_len s3 = 0 \<and> pending s3 = 0"
  by (simp add: xfer40_def mchp_corespi_transfer_one_def mchp_corespi_set_clk_gen_def
        clk_eval irq_defs run_defs loopback_def reg_consts bit_consts upt_rec)

text \<open>
  The divider selected for this transfer is 9, and under the ratio \<open>2 * d + 1\<close> the
  rate of the divider 9 is 1052631 Hz, not 1 MHz.
\<close>

theorem transfer_40_rate_counterexample:
  "(case mchp_corespi_calculate_clkgen (ucast (speed_hz xfer40)) spi_20MHz of
      Inl e \<Rightarrow> False
    | Inr spi' \<Rightarrow> clk_mode spi' = 1 \<and> clk_gen spi' = 9 \<and>
        scheme_A_rate (unat (clk spi')) (unat (clk_gen spi')) = 1052631) \<and>
   scheme_A_rate 20000000 9 \<noteq> 1000000"
  by (simp add: xfer40_def spi_20MHz_def clk_eval scheme_A_rate_def)

end
